theory Spec2Isabelle
  imports Main "HOL-Library.Char_ord" "HOL-Library.List_Lexorder"
begin

section \<open>Values, keys and errors\<close>

text \<open>
  The class \<open>Indexa\<close> of \<open>src/indexa.ts\<close> wraps the browser's IndexedDB. Its methods are
  embedded below, one definition per method, under the method's own name. The storage
  engine is not part of the repository: it is modelled in the next section as far as the
  methods consume it (open, transaction, the object-store requests, the cursor, database
  deletion), following the engine interface the specification lists and the IndexedDB
  rules for keys, key generators and request errors.

  JavaScript values are the records the application stores. Numbers are modelled as
  integers; a key is a number or a string, and numbers sort before strings.
\<close>

datatype jsval = VUndef | VNum int | VStr string | VObj "(string \<times> jsval) list"

datatype idb_key = KNum int | KStr string

fun key_le :: "idb_key \<Rightarrow> idb_key \<Rightarrow> bool" where
  "key_le (KNum a) (KNum b) = (a \<le> b)"
| "key_le (KNum a) (KStr t) = True"
| "key_le (KStr s) (KNum b) = False"
| "key_le (KStr s) (KStr t) = (s \<le> t)"

instantiation idb_key :: linorder
begin

definition less_eq_idb_key :: "idb_key \<Rightarrow> idb_key \<Rightarrow> bool" where
  "less_eq_idb_key a b = key_le a b"

definition less_idb_key :: "idb_key \<Rightarrow> idb_key \<Rightarrow> bool" where
  "less_idb_key a b = (key_le a b \<and> \<not> key_le b a)"

instance
proof
  fix x y z :: idb_key
  show "(x < y) = (x \<le> y \<and> \<not> y \<le> x)"
    by (simp add: less_idb_key_def less_eq_idb_key_def)
  show "x \<le> x"
    by (cases x) (simp_all add: less_eq_idb_key_def)
  show "x \<le> y \<Longrightarrow> y \<le> z \<Longrightarrow> x \<le> z"
    by (cases x; cases y; cases z) (auto simp: less_eq_idb_key_def)
  show "x \<le> y \<Longrightarrow> y \<le> x \<Longrightarrow> x = y"
    by (cases x; cases y) (auto simp: less_eq_idb_key_def)
  show "x \<le> y \<or> y \<le> x"
    by (cases x; cases y) (auto simp: less_eq_idb_key_def)
qed

end

text \<open>
  The four error kinds of the specification's taxonomy. The source declares no such
  classes; the constructor \<open>Taxonomy\<close> exists so that "an engine error wrapped as a
  taxonomy kind" is a value that an outcome can be compared with.
\<close>

datatype taxonomy_kind = OpenError | TransactionError | RequestError | BlockedError

datatype js_error =
    DOMException string
  | TypeError
  | Error string
  | Taxonomy taxonomy_kind js_error

text \<open>A promise is fulfilled, rejected, or never settles.\<close>

datatype 'a outcome = Resolved 'a | Rejected js_error | Pending

text \<open>
  A listener is a function reference: \<open>sid\<close> stands for the reference, and \<open>call\<close> is
  what the function does when it is invoked with a snapshot. While it runs it can call the
  two synchronous methods of the instance, \<open>unsubscribe\<close> and \<open>subscribe\<close>, and it can
  change the array it was handed, which is the same array object for every listener of one
  cycle; then it returns normally or throws. \<open>actions\<close> lists its calls in order:
  \<open>Unsubscribe s n\<close> is \<open>unsubscribe(s, f)\<close> for the function whose reference is \<open>n\<close>,
  and \<open>Subscribe s cb\<close> is \<open>subscribe(s, cb)\<close>. \<open>snapshot\<close> is the content of the array
  when the listener is done, and \<open>thrown\<close> is its exception, if any. An asynchronous
  method that a listener starts is an operation of its own, taken after the current one.
\<close>

datatype Subscriber = Subscriber (sid: nat) (call: "jsval list \<Rightarrow> reaction")
  and reaction =
    Reaction (actions: "action list") (snapshot: "jsval list") (thrown: "js_error option")
  and action = Unsubscribe string nat | Subscribe string Subscriber

section \<open>The storage engine\<close>

text \<open>
  Modelled from the spec: the storage engine (the browser's IndexedDB), which the class
  calls and the repository does not contain. The specification gives its interface (open
  with creation of stores on upgrade; a transaction on one store; the requests add, put,
  get, getAll, delete, clear, count, getKey, getAll on an index; a cursor with continue;
  deleteDatabase with its blocked signal), records whose key is a field at the key path or
  a generated integer, storage and cursors in key order, and the failures: a key that
  exists on add, an unknown store or index, a blocked deletion. Where the specification is
  silent the model follows the IndexedDB standard: the checks \<open>add\<close> and \<open>put\<close> make
  before they queue a request, the key generator, open's \<open>TypeError\<close> and
  \<open>VersionError\<close>, the \<open>InvalidStateError\<close> of a closed connection, and the abort of a
  transaction when a request fails and no handler calls \<open>preventDefault\<close>.
\<close>

record object_store =
  os_keyPath :: string
  os_autoIncrement :: bool
  os_generator :: int
  os_records :: "(idb_key \<times> jsval) list"
  os_indexes :: "(string \<times> string) list"

record database =
  db_version :: int
  db_stores :: "(string \<times> object_store) list"

datatype query = Only idb_key | Bound "idb_key option" "idb_key option" bool bool

text \<open>
  What an observer of one run sees, in order: the requests handed to the engine, the
  invocations of the application's callbacks, and the failures nobody handles.
\<close>

datatype event =
    OpenRequest string int
  | DeleteDatabaseRequest string
  | AddRequest string jsval
  | PutRequest string jsval
  | GetRequest string idb_key
  | GetAllRequest string
  | DeleteRequest string idb_key
  | ClearRequest string
  | CountRequest string
  | GetKeyRequest string idb_key
  | IndexGetAllRequest string string query
  | OpenCursorRequest string
  | ContinueRequest string
  | Delivered nat "jsval list"
  | Visited jsval idb_key
  | UnhandledRejection js_error
  | Uncaught js_error
  | ConsoleLog string

text \<open>
  The state outside the instance. A connection is its index in \<open>connections\<close>, with the
  database's name and whether it is still open. \<open>faults\<close> scripts the engine's I/O
  failures: each request the engine processes takes the head of the list, and fails with
  that error when it is \<open>Some e\<close>. \<open>debugEnabled\<close> is the static flag of the class.
  \<open>pending\<close> holds the initial reads that listeners started by subscribing during a
  notification cycle, each with its store and callback: they run after the operation that
  triggered the cycle.
\<close>

record world =
  databases :: "(string \<times> database) list"
  connections :: "(string \<times> bool) list"
  faults :: "js_error option list"
  debugEnabled :: bool
  trace :: "event list"
  pending :: "(string \<times> Subscriber) list"

definition empty_world :: world where
  "empty_world =
     \<lparr>databases = [], connections = [], faults = [], debugEnabled = False, trace = [],
      pending = []\<rparr>"

definition emit :: "event \<Rightarrow> world \<Rightarrow> world" where
  "emit ev w = w\<lparr>trace := trace w @ [ev]\<rparr>"

definition issue :: "event \<Rightarrow> world \<Rightarrow> js_error option \<times> world" where
  "issue ev w =
     (case faults w of
        [] \<Rightarrow> (None, emit ev w)
      | f # fs \<Rightarrow> (f, emit ev (w\<lparr>faults := fs\<rparr>)))"

definition new_events :: "world \<Rightarrow> world \<Rightarrow> event list" where
  "new_events w w' = drop (length (trace w)) (trace w')"

fun put_entry :: "'k \<Rightarrow> 'v \<Rightarrow> ('k \<times> 'v) list \<Rightarrow> ('k \<times> 'v) list" where
  "put_entry k v [] = [(k, v)]"
| "put_entry k v ((k', v') # xs) =
     (if k = k' then (k, v) # xs else (k', v') # put_entry k v xs)"

definition has_open_connection :: "string \<Rightarrow> world \<Rightarrow> bool" where
  "has_open_connection name w = ((name, True) \<in> set (connections w))"

definition close_connection :: "nat \<Rightarrow> world \<Rightarrow> world" where
  "close_connection c w =
     (if c < length (connections w)
      then w\<lparr>connections := (connections w)[c := (fst (connections w ! c), False)]\<rparr>
      else w)"

definition find_store :: "string \<Rightarrow> string \<Rightarrow> world \<Rightarrow> object_store option" where
  "find_store dbn storeName w =
     (case map_of (databases w) dbn of
        None \<Rightarrow> None
      | Some d \<Rightarrow> map_of (db_stores d) storeName)"

definition set_store :: "string \<Rightarrow> string \<Rightarrow> object_store \<Rightarrow> world \<Rightarrow> world" where
  "set_store dbn storeName st w =
     (case map_of (databases w) dbn of
        None \<Rightarrow> w
      | Some d \<Rightarrow>
          w\<lparr>databases :=
              put_entry dbn (d\<lparr>db_stores := put_entry storeName st (db_stores d)\<rparr>) (databases w)\<rparr>)"

subsection \<open>Keys of records\<close>

datatype extraction = KFailure | KInvalid | KKey idb_key

fun extract_key :: "string \<Rightarrow> jsval \<Rightarrow> extraction" where
  "extract_key kp (VObj ps) =
     (case map_of ps kp of
        None \<Rightarrow> KFailure
      | Some VUndef \<Rightarrow> KFailure
      | Some (VNum n) \<Rightarrow> KKey (KNum n)
      | Some (VStr s) \<Rightarrow> KKey (KStr s)
      | Some (VObj qs) \<Rightarrow> KInvalid)"
| "extract_key kp v = KFailure"

fun key_value :: "idb_key \<Rightarrow> jsval" where
  "key_value (KNum n) = VNum n"
| "key_value (KStr s) = VStr s"

fun inject_key :: "string \<Rightarrow> idb_key \<Rightarrow> jsval \<Rightarrow> jsval" where
  "inject_key kp k (VObj ps) = VObj (put_entry kp (key_value k) ps)"
| "inject_key kp k v = v"

fun is_object :: "jsval \<Rightarrow> bool" where
  "is_object (VObj ps) = True"
| "is_object v = False"

text \<open>
  Modelled from the spec: the engine's \<open>add\<close> and \<open>put\<close> on an object store, which the
  repository calls and does not contain. \<open>validate_write\<close> is what \<open>store.add\<close> and
  \<open>store.put\<close> check before they return a request: a failed check is an exception thrown
  by the call. \<open>store_record\<close> is what the
  engine does with the request afterwards: it generates and injects the key when the
  record carries none, moves the generator past an explicit numeric key, and for \<open>add\<close>
  refuses a key that is already there.
\<close>

definition validate_write :: "object_store \<Rightarrow> jsval \<Rightarrow> js_error option" where
  "validate_write st v =
     (case extract_key (os_keyPath st) v of
        KInvalid \<Rightarrow> Some (DOMException ''DataError'')
      | KFailure \<Rightarrow>
          (if os_autoIncrement st \<and> is_object v then None
           else Some (DOMException ''DataError''))
      | KKey k \<Rightarrow> None)"

fun put_record :: "idb_key \<Rightarrow> jsval \<Rightarrow> (idb_key \<times> jsval) list \<Rightarrow> (idb_key \<times> jsval) list" where
  "put_record k v [] = [(k, v)]"
| "put_record k v ((k', v') # rs) =
     (if k < k' then (k, v) # (k', v') # rs
      else if k = k' then (k, v) # rs
      else (k', v') # put_record k v rs)"

definition bump_generator :: "idb_key \<Rightarrow> object_store \<Rightarrow> object_store" where
  "bump_generator k st =
     (case k of
        KNum n \<Rightarrow>
          (if os_autoIncrement st \<and> os_generator st \<le> n
           then st\<lparr>os_generator := n + 1\<rparr> else st)
      | KStr s \<Rightarrow> st)"

definition store_record ::
  "bool \<Rightarrow> jsval \<Rightarrow> object_store \<Rightarrow> js_error + (idb_key \<times> object_store)" where
  "store_record no_overwrite v st =
     (case extract_key (os_keyPath st) v of
        KKey k \<Rightarrow>
          (if no_overwrite \<and> k \<in> fst ` set (os_records st)
           then Inl (DOMException ''ConstraintError'')
           else Inr (k, (bump_generator k st)\<lparr>os_records := put_record k v (os_records st)\<rparr>))
      | _ \<Rightarrow>
          (if 9007199254740992 < os_generator st
           then Inl (DOMException ''ConstraintError'')
           else
             (let k = KNum (os_generator st)
              in if no_overwrite \<and> k \<in> fst ` set (os_records st)
                 then Inl (DOMException ''ConstraintError'')
                 else Inr (k, st\<lparr>os_generator := os_generator st + 1,
                                 os_records := put_record k (inject_key (os_keyPath st) k v)
                                                 (os_records st)\<rparr>))))"

fun in_range :: "query \<Rightarrow> idb_key \<Rightarrow> bool" where
  "in_range (Only k) x = (x = k)"
| "in_range (Bound lo hi lo_open hi_open) x =
     ((case lo of None \<Rightarrow> True | Some l \<Rightarrow> (if lo_open then l < x else l \<le> x)) \<and>
      (case hi of None \<Rightarrow> True | Some h \<Rightarrow> (if hi_open then x < h else x \<le> h)))"

fun index_entries :: "string \<Rightarrow> (idb_key \<times> jsval) list \<Rightarrow> (idb_key \<times> jsval) list" where
  "index_entries ikp [] = []"
| "index_entries ikp ((k, v) # rs) =
     (case extract_key ikp v of
        KKey ik \<Rightarrow> (ik, v) # index_entries ikp rs
      | _ \<Rightarrow> index_entries ikp rs)"

definition index_getAll :: "string \<Rightarrow> query \<Rightarrow> object_store \<Rightarrow> jsval list" where
  "index_getAll ikp q st =
     map snd (sort_key fst (filter (\<lambda>(ik, v). in_range q ik) (index_entries ikp (os_records st))))"

section \<open>The class\<close>

text \<open>
  The methods are asynchronous. A method is modelled as a function from the instance, its
  arguments and the world to the outcome of the promise it returns and the world it
  leaves, run to the end with the notification it starts: the operations of one instance
  are taken one after the other, and what pending operations could do to each other in
  between is outside the model. A mutating method also returns the instance as the
  notification leaves it, because a listener can change the registry while it runs.
\<close>

record StoreConfig =
  keyPath :: string
  autoIncrement :: "bool option"

type_synonym DBSchemaConfig = "(string \<times> StoreConfig) list"

datatype IDBTransactionMode = ReadOnly | ReadWrite

record Indexa =
  dbName :: string
  dbVersion :: int
  stores :: DBSchemaConfig
  dbPromise :: "nat outcome"
  subscribers :: "(string \<times> Subscriber list) list"

definition setDebug :: "bool \<Rightarrow> world \<Rightarrow> world" where
  "setDebug enabled w = w\<lparr>debugEnabled := enabled\<rparr>"

definition debugLog :: "string \<Rightarrow> world \<Rightarrow> world" where
  "debugLog msg w = (if debugEnabled w then emit (ConsoleLog msg) w else w)"

subsection \<open>Opening the connection\<close>

definition createObjectStore :: "StoreConfig \<Rightarrow> object_store" where
  "createObjectStore config =
     \<lparr>os_keyPath = keyPath config,
      os_autoIncrement = (case autoIncrement config of None \<Rightarrow> False | Some b \<Rightarrow> b),
      os_generator = 1,
      os_records = [],
      os_indexes = []\<rparr>"

text \<open>The loop of \<open>onupgradeneeded\<close>: every declared store the database lacks is created.\<close>

fun onupgradeneeded ::
  "DBSchemaConfig \<Rightarrow> (string \<times> object_store) list \<Rightarrow> (string \<times> object_store) list" where
  "onupgradeneeded [] oss = oss"
| "onupgradeneeded ((storeName, config) # rest) oss =
     onupgradeneeded rest
       (if storeName \<in> fst ` set oss then oss
        else oss @ [(storeName, createObjectStore config)])"

text \<open>
  \<open>init\<close> wraps the open request in a promise. \<open>indexedDB.open\<close> throws on a version that
  is not positive, fails with a \<open>VersionError\<close> below the stored version, and waits
  while an upgrade is blocked by another open connection: the class installs no
  \<open>onblocked\<close> handler on the request, so the promise stays pending. A database that
  does not exist counts as version 0 without stores.
\<close>

definition init :: "string \<Rightarrow> int \<Rightarrow> DBSchemaConfig \<Rightarrow> world \<Rightarrow> nat outcome \<times> world" where
  "init name ver schema w =
     (if ver \<le> 0 then (Rejected TypeError, w)
      else
        (case issue (OpenRequest name ver) w of
           (Some e, w1) \<Rightarrow> (Rejected e, debugLog ''IndexedDB error:'' w1)
         | (None, w1) \<Rightarrow>
             (let old = (case map_of (databases w1) name of
                           None \<Rightarrow> \<lparr>db_version = 0, db_stores = []\<rparr>
                         | Some d \<Rightarrow> d)
              in if ver < db_version old
                 then (Rejected (DOMException ''VersionError''), debugLog ''IndexedDB error:'' w1)
                 else if db_version old < ver \<and> has_open_connection name w1
                 then (Pending, w1)
                 else
                   (let d = (if db_version old < ver
                             then \<lparr>db_version = ver,
                                   db_stores = onupgradeneeded schema (db_stores old)\<rparr>
                             else old);
                        w2 = w1\<lparr>databases := put_entry name d (databases w1),
                                connections := connections w1 @ [(name, True)]\<rparr>
                    in (Resolved (length (connections w1)),
                        debugLog ''IndexedDB initialized:'' w2)))))"

definition constructor :: "string \<Rightarrow> int \<Rightarrow> DBSchemaConfig \<Rightarrow> world \<Rightarrow> Indexa \<times> world" where
  "constructor name ver schema w =
     (case init name ver schema w of
        (p, w1) \<Rightarrow>
          (\<lparr>dbName = name, dbVersion = ver, stores = schema, dbPromise = p, subscribers = []\<rparr>,
           w1))"

subsection \<open>The transaction helper\<close>

text \<open>
  \<open>transaction\<close> awaits \<open>dbPromise\<close>, then asks the connection for a transaction on the
  store: the engine throws \<open>InvalidStateError\<close> on a closed connection and
  \<open>NotFoundError\<close> on an unknown store. The handle it returns is the database's name
  with the store as the transaction sees it.
\<close>

definition transaction ::
  "Indexa \<Rightarrow> string \<Rightarrow> IDBTransactionMode \<Rightarrow> world \<Rightarrow> (string \<times> object_store) outcome" where
  "transaction ix storeName mode w =
     (case dbPromise ix of
        Pending \<Rightarrow> Pending
      | Rejected e \<Rightarrow> Rejected e
      | Resolved db \<Rightarrow>
          (if db < length (connections w) \<and> snd (connections w ! db)
           then
             (case find_store (fst (connections w ! db)) storeName w of
                None \<Rightarrow> Rejected (DOMException ''NotFoundError'')
              | Some st \<Rightarrow> Resolved (fst (connections w ! db), st))
           else Rejected (DOMException ''InvalidStateError'')))"

subsection \<open>Reads\<close>

definition get :: "Indexa \<Rightarrow> string \<Rightarrow> idb_key \<Rightarrow> world \<Rightarrow> jsval option outcome \<times> world" where
  "get ix storeName key w =
     (case transaction ix storeName ReadOnly w of
        Pending \<Rightarrow> (Pending, w)
      | Rejected e \<Rightarrow> (Rejected e, w)
      | Resolved (dbn, st) \<Rightarrow>
          (case issue (GetRequest storeName key) w of
             (Some e, w1) \<Rightarrow> (Rejected e, w1)
           | (None, w1) \<Rightarrow> (Resolved (map_of (os_records st) key), w1)))"

definition getAll :: "Indexa \<Rightarrow> string \<Rightarrow> world \<Rightarrow> jsval list outcome \<times> world" where
  "getAll ix storeName w =
     (case transaction ix storeName ReadOnly w of
        Pending \<Rightarrow> (Pending, w)
      | Rejected e \<Rightarrow> (Rejected e, w)
      | Resolved (dbn, st) \<Rightarrow>
          (case issue (GetAllRequest storeName) w of
             (Some e, w1) \<Rightarrow> (Rejected e, w1)
           | (None, w1) \<Rightarrow> (Resolved (map snd (os_records st)), w1)))"

definition getByIndex ::
  "Indexa \<Rightarrow> string \<Rightarrow> string \<Rightarrow> query \<Rightarrow> world \<Rightarrow> jsval list outcome \<times> world" where
  "getByIndex ix storeName indexName q w =
     (case transaction ix storeName ReadOnly w of
        Pending \<Rightarrow> (Pending, w)
      | Rejected e \<Rightarrow> (Rejected e, w)
      | Resolved (dbn, st) \<Rightarrow>
          (case map_of (os_indexes st) indexName of
             None \<Rightarrow> (Rejected (DOMException ''NotFoundError''), w)
           | Some ikp \<Rightarrow>
               (case issue (IndexGetAllRequest storeName indexName q) w of
                  (Some e, w1) \<Rightarrow> (Rejected e, w1)
                | (None, w1) \<Rightarrow> (Resolved (index_getAll ikp q st), w1))))"

definition count :: "Indexa \<Rightarrow> string \<Rightarrow> world \<Rightarrow> nat outcome \<times> world" where
  "count ix storeName w =
     (case transaction ix storeName ReadOnly w of
        Pending \<Rightarrow> (Pending, w)
      | Rejected e \<Rightarrow> (Rejected e, w)
      | Resolved (dbn, st) \<Rightarrow>
          (case issue (CountRequest storeName) w of
             (Some e, w1) \<Rightarrow> (Rejected e, w1)
           | (None, w1) \<Rightarrow> (Resolved (length (os_records st)), w1)))"

definition exists :: "Indexa \<Rightarrow> string \<Rightarrow> idb_key \<Rightarrow> world \<Rightarrow> bool outcome \<times> world" where
  "exists ix storeName key w =
     (case transaction ix storeName ReadOnly w of
        Pending \<Rightarrow> (Pending, w)
      | Rejected e \<Rightarrow> (Rejected e, w)
      | Resolved (dbn, st) \<Rightarrow>
          (case issue (GetKeyRequest storeName key) w of
             (Some e, w1) \<Rightarrow> (Rejected e, w1)
           | (None, w1) \<Rightarrow> (Resolved (map_of (os_records st) key \<noteq> None), w1)))"

text \<open>
  The cursor of \<open>iterate\<close>: each success event carries the next record or null. With a
  record the handler calls the callback and then \<open>cursor.continue()\<close>; an exception of
  the callback leaves the handler before \<open>continue\<close>, so no further event arrives and
  the promise never settles. With null the handler resolves.
\<close>

fun cursor_steps ::
  "string \<Rightarrow> (jsval \<Rightarrow> idb_key \<Rightarrow> js_error option) \<Rightarrow> (idb_key \<times> jsval) list \<Rightarrow> world
     \<Rightarrow> unit outcome \<times> world" where
  "cursor_steps storeName callback [] w = (Resolved (), w)"
| "cursor_steps storeName callback ((k, v) # rest) w =
     (case callback v k of
        Some e \<Rightarrow> (Pending, emit (Uncaught e) (emit (Visited v k) w))
      | None \<Rightarrow>
          (case issue (ContinueRequest storeName) (emit (Visited v k) w) of
             (Some e, w1) \<Rightarrow> (Rejected e, w1)
           | (None, w1) \<Rightarrow> cursor_steps storeName callback rest w1))"

definition iterate ::
  "Indexa \<Rightarrow> string \<Rightarrow> (jsval \<Rightarrow> idb_key \<Rightarrow> js_error option) \<Rightarrow> world \<Rightarrow> unit outcome \<times> world" where
  "iterate ix storeName callback w =
     (case transaction ix storeName ReadOnly w of
        Pending \<Rightarrow> (Pending, w)
      | Rejected e \<Rightarrow> (Rejected e, w)
      | Resolved (dbn, st) \<Rightarrow>
          (case issue (OpenCursorRequest storeName) w of
             (Some e, w1) \<Rightarrow> (Rejected e, w1)
           | (None, w1) \<Rightarrow> cursor_steps storeName callback (os_records st) w1))"

subsection \<open>The registry\<close>

text \<open>
  \<open>subscribers\<close> is a plain object, created by the literal \<open>{}\<close>: reading a property of
  it finds an own property, which is always a listener array, or else a member that every
  object inherits from \<open>Object.prototype\<close>, or else \<open>undefined\<close>. An inherited member is
  truthy and is not an array.
\<close>

definition object_prototype_members :: "string list" where
  "object_prototype_members =
     [''constructor'', ''hasOwnProperty'', ''isPrototypeOf'', ''propertyIsEnumerable'',
      ''toLocaleString'', ''toString'', ''valueOf'', ''__defineGetter__'',
      ''__defineSetter__'', ''__lookupGetter__'', ''__lookupSetter__'', ''__proto__'']"

datatype property = Undefined | Inherited | Array "Subscriber list"

definition lookup :: "(string \<times> Subscriber list) list \<Rightarrow> string \<Rightarrow> property" where
  "lookup subs name =
     (case map_of subs name of
        Some arr \<Rightarrow> Array arr
      | None \<Rightarrow> (if name \<in> set object_prototype_members then Inherited else Undefined))"

fun indexOf :: "Subscriber list \<Rightarrow> Subscriber \<Rightarrow> nat option" where
  "indexOf [] callback = None"
| "indexOf (cb # cbs) callback =
     (if cb = callback then Some 0
      else (case indexOf cbs callback of None \<Rightarrow> None | Some i \<Rightarrow> Some (Suc i)))"

definition splice1 :: "nat \<Rightarrow> 'a list \<Rightarrow> 'a list" where
  "splice1 idx arr = take idx arr @ drop (Suc idx) arr"

text \<open>
  \<open>unsubscribe\<close> returns when the property is falsy; on an inherited member the call
  \<open>arr.indexOf\<close> throws a \<open>TypeError\<close>. The first component is the exception thrown.
\<close>

definition unsubscribe :: "Indexa \<Rightarrow> string \<Rightarrow> Subscriber \<Rightarrow> js_error option \<times> Indexa" where
  "unsubscribe ix storeName callback =
     (case lookup (subscribers ix) storeName of
        Undefined \<Rightarrow> (None, ix)
      | Inherited \<Rightarrow> (Some TypeError, ix)
      | Array arr \<Rightarrow>
          (case indexOf arr callback of
             None \<Rightarrow> (None, ix)
           | Some idx \<Rightarrow>
               (None, ix\<lparr>subscribers := put_entry storeName (splice1 idx arr) (subscribers ix)\<rparr>)))"

text \<open>
  The first two statements of \<open>subscribe\<close>: the property is set to a new array when it is
  falsy, and the callback is pushed. On an inherited member the call of \<open>push\<close> throws a
  \<open>TypeError\<close>, before any read is started.
\<close>

definition register :: "Indexa \<Rightarrow> string \<Rightarrow> Subscriber \<Rightarrow> js_error option \<times> Indexa" where
  "register ix storeName callback =
     (case lookup (subscribers ix) storeName of
        Undefined \<Rightarrow>
          (None, ix\<lparr>subscribers := put_entry storeName [callback] (subscribers ix)\<rparr>)
      | Inherited \<Rightarrow> (Some TypeError, ix)
      | Array arr \<Rightarrow>
          (None, ix\<lparr>subscribers := put_entry storeName (arr @ [callback]) (subscribers ix)\<rparr>))"

subsection \<open>Invoking a listener\<close>

text \<open>
  The calls a listener makes while it runs, in order. An exception of a call is not caught
  by the listener and ends it. A listener that unsubscribes names a function; the call
  removes the first entry of the store's array that is this function. A listener that
  subscribes pushes the callback at once; the initial read it starts is queued.
\<close>

fun perform :: "action list \<Rightarrow> Indexa \<Rightarrow> world \<Rightarrow> js_error option \<times> Indexa \<times> world" where
  "perform [] ix w = (None, ix, w)"
| "perform (Unsubscribe storeName n # acts) ix w =
     (case lookup (subscribers ix) storeName of
        Undefined \<Rightarrow> perform acts ix w
      | Inherited \<Rightarrow> (Some TypeError, ix, w)
      | Array arr \<Rightarrow>
          (case find (\<lambda>cb. sid cb = n) arr of
             None \<Rightarrow> perform acts ix w
           | Some cb \<Rightarrow> perform acts (snd (unsubscribe ix storeName cb)) w))"
| "perform (Subscribe storeName cb # acts) ix w =
     (case register ix storeName cb of
        (Some e, ix') \<Rightarrow> (Some e, ix', w)
      | (None, ix') \<Rightarrow> perform acts ix' (w\<lparr>pending := pending w @ [(storeName, cb)]\<rparr>))"

text \<open>
  One invocation \<open>cb(data)\<close>: the exception it ends with, if any, the content of the
  array afterwards, and the instance and the world it leaves.
\<close>

definition invoke ::
  "Subscriber \<Rightarrow> jsval list \<Rightarrow> Indexa \<Rightarrow> world \<Rightarrow> js_error option \<times> jsval list \<times> Indexa \<times> world" where
  "invoke cb data ix w =
     (case perform (actions (call cb data)) ix (emit (Delivered (sid cb) data) w) of
        (Some e, ix', w') \<Rightarrow> (Some e, snapshot (call cb data), ix', w')
      | (None, ix', w') \<Rightarrow> (thrown (call cb data), snapshot (call cb data), ix', w'))"

subsection \<open>Notification\<close>

text \<open>
  \<open>Array.prototype.forEach\<close> on the store's listener array. It reads the length once,
  then takes the indices from 0 up to that length: at each index it looks into the array
  as it is at that moment, and calls the function when the index is still inside it. So
  when a listener removes an entry at or before its own index, the entries behind move
  down one place and the one that moves into the current index is not called. An exception
  of a listener ends the loop and leaves it. \<open>forEach n k\<close> has \<open>n\<close> indices left to take,
  starting at \<open>k\<close>.
\<close>

primrec forEach ::
  "nat \<Rightarrow> nat \<Rightarrow> string \<Rightarrow> jsval list \<Rightarrow> Indexa \<Rightarrow> world \<Rightarrow> js_error option \<times> Indexa \<times> world" where
  "forEach 0 k storeName data ix w = (None, ix, w)"
| "forEach (Suc n) k storeName data ix w =
     (case lookup (subscribers ix) storeName of
        Array arr \<Rightarrow>
          (if k < length arr
           then (case invoke (arr ! k) data ix w of
                   (Some e, data', ix', w') \<Rightarrow> (Some e, ix', w')
                 | (None, data', ix', w') \<Rightarrow> forEach n (Suc k) storeName data' ix' w')
           else forEach n (Suc k) storeName data ix w)
      | Undefined \<Rightarrow> forEach n (Suc k) storeName data ix w
      | Inherited \<Rightarrow> forEach n (Suc k) storeName data ix w)"

text \<open>
  \<open>notify\<close> is an async method that no caller awaits: whatever rejects it (the read, a
  listener's exception, or the \<open>TypeError\<close> of calling \<open>forEach\<close> on an inherited member,
  which has none) ends as an unhandled rejection.
\<close>

definition notify :: "Indexa \<Rightarrow> string \<Rightarrow> world \<Rightarrow> Indexa \<times> world" where
  "notify ix storeName w =
     (case getAll ix storeName w of
        (Pending, w1) \<Rightarrow> (ix, w1)
      | (Rejected e, w1) \<Rightarrow> (ix, emit (UnhandledRejection e) w1)
      | (Resolved data, w1) \<Rightarrow>
          (case lookup (subscribers ix) storeName of
             Undefined \<Rightarrow> (ix, w1)
           | Inherited \<Rightarrow> (ix, emit (UnhandledRejection TypeError) w1)
           | Array arr \<Rightarrow>
               (case forEach (length arr) 0 storeName data ix w1 of
                  (None, ix', w2) \<Rightarrow> (ix', w2)
                | (Some e, ix', w2) \<Rightarrow> (ix', emit (UnhandledRejection e) w2))))"

text \<open>
  The last statement of \<open>subscribe\<close>, \<open>this.getAll(storeName).then(callback)\<close>: nothing
  handles a rejection of the read or an exception of the callback.
\<close>

definition initial_delivery :: "Indexa \<Rightarrow> string \<Rightarrow> Subscriber \<Rightarrow> world \<Rightarrow> Indexa \<times> world" where
  "initial_delivery ix storeName callback w =
     (case getAll ix storeName w of
        (Pending, w1) \<Rightarrow> (ix, w1)
      | (Rejected e, w1) \<Rightarrow> (ix, emit (UnhandledRejection e) w1)
      | (Resolved data, w1) \<Rightarrow>
          (case invoke callback data ix w1 of
             (None, data', ix', w2) \<Rightarrow> (ix', w2)
           | (Some e, data', ix', w2) \<Rightarrow> (ix', emit (UnhandledRejection e) w2)))"

definition subscribe ::
  "Indexa \<Rightarrow> string \<Rightarrow> Subscriber \<Rightarrow> world \<Rightarrow> js_error option \<times> Indexa \<times> world" where
  "subscribe ix storeName callback w =
     (case register ix storeName callback of
        (Some e, ix') \<Rightarrow> (Some e, ix', w)
      | (None, ix') \<Rightarrow> (None, initial_delivery ix' storeName callback w))"

text \<open>The next initial read that a listener queued, run to its end.\<close>

definition run_pending :: "Indexa \<Rightarrow> world \<Rightarrow> Indexa \<times> world" where
  "run_pending ix w =
     (case pending w of
        [] \<Rightarrow> (ix, w)
      | (storeName, callback) # rest \<Rightarrow> initial_delivery ix storeName callback (w\<lparr>pending := rest\<rparr>))"

subsection \<open>Writes\<close>

definition add :: "Indexa \<Rightarrow> string \<Rightarrow> jsval \<Rightarrow> world \<Rightarrow> idb_key outcome \<times> Indexa \<times> world" where
  "add ix storeName v w =
     (case transaction ix storeName ReadWrite w of
        Pending \<Rightarrow> (Pending, ix, w)
      | Rejected e \<Rightarrow> (Rejected e, ix, w)
      | Resolved (dbn, st) \<Rightarrow>
          (case validate_write st v of
             Some e \<Rightarrow> (Rejected e, ix, w)
           | None \<Rightarrow>
               (case issue (AddRequest storeName v) w of
                  (Some e, w1) \<Rightarrow> (Rejected e, ix, w1)
                | (None, w1) \<Rightarrow>
                    (case store_record True v st of
                       Inl e \<Rightarrow> (Rejected e, ix, w1)
                     | Inr (k, st') \<Rightarrow>
                         (Resolved k, notify ix storeName (set_store dbn storeName st' w1))))))"

definition update :: "Indexa \<Rightarrow> string \<Rightarrow> jsval \<Rightarrow> world \<Rightarrow> idb_key outcome \<times> Indexa \<times> world" where
  "update ix storeName v w =
     (case transaction ix storeName ReadWrite w of
        Pending \<Rightarrow> (Pending, ix, w)
      | Rejected e \<Rightarrow> (Rejected e, ix, w)
      | Resolved (dbn, st) \<Rightarrow>
          (case validate_write st v of
             Some e \<Rightarrow> (Rejected e, ix, w)
           | None \<Rightarrow>
               (case issue (PutRequest storeName v) w of
                  (Some e, w1) \<Rightarrow> (Rejected e, ix, w1)
                | (None, w1) \<Rightarrow>
                    (case store_record False v st of
                       Inl e \<Rightarrow> (Rejected e, ix, w1)
                     | Inr (k, st') \<Rightarrow>
                         (Resolved k, notify ix storeName (set_store dbn storeName st' w1))))))"

definition delete :: "Indexa \<Rightarrow> string \<Rightarrow> idb_key \<Rightarrow> world \<Rightarrow> unit outcome \<times> Indexa \<times> world" where
  "delete ix storeName key w =
     (case transaction ix storeName ReadWrite w of
        Pending \<Rightarrow> (Pending, ix, w)
      | Rejected e \<Rightarrow> (Rejected e, ix, w)
      | Resolved (dbn, st) \<Rightarrow>
          (case issue (DeleteRequest storeName key) w of
             (Some e, w1) \<Rightarrow> (Rejected e, ix, w1)
           | (None, w1) \<Rightarrow>
               (Resolved (),
                notify ix storeName
                  (set_store dbn storeName
                     (st\<lparr>os_records := filter (\<lambda>(k, v). k \<noteq> key) (os_records st)\<rparr>) w1))))"

definition clear :: "Indexa \<Rightarrow> string \<Rightarrow> world \<Rightarrow> unit outcome \<times> Indexa \<times> world" where
  "clear ix storeName w =
     (case transaction ix storeName ReadWrite w of
        Pending \<Rightarrow> (Pending, ix, w)
      | Rejected e \<Rightarrow> (Rejected e, ix, w)
      | Resolved (dbn, st) \<Rightarrow>
          (case issue (ClearRequest storeName) w of
             (Some e, w1) \<Rightarrow> (Rejected e, ix, w1)
           | (None, w1) \<Rightarrow>
               (Resolved (),
                notify ix storeName (set_store dbn storeName (st\<lparr>os_records := []\<rparr>) w1))))"

subsection \<open>Bulk writes\<close>

text \<open>
  \<open>values.map\<close> calls \<open>store.add\<close> for every value before any request completes: a value
  that fails the synchronous check rejects its own promise at once (\<open>Inl\<close> in the list of
  issued items), the others are queued. The engine then serves the queue in order, inside
  the one transaction. The handlers never call \<open>preventDefault\<close>, so the first request
  that fails aborts the transaction: the requests still queued end with \<open>AbortError\<close>
  and the store returns to what it was.
\<close>

fun run_writes ::
  "bool \<Rightarrow> (jsval \<Rightarrow> event) \<Rightarrow> (js_error + jsval) list \<Rightarrow> object_store \<times> bool \<times> world
     \<Rightarrow> (js_error + idb_key) list \<times> (object_store \<times> bool \<times> world)" where
  "run_writes no_overwrite ev [] s = ([], s)"
| "run_writes no_overwrite ev (Inl e # items) s =
     (case run_writes no_overwrite ev items s of (rs, s') \<Rightarrow> (Inl e # rs, s'))"
| "run_writes no_overwrite ev (Inr v # items) (st, aborted, w) =
     (if aborted
      then (case run_writes no_overwrite ev items (st, True, emit (ev v) w) of
              (rs, s') \<Rightarrow> (Inl (DOMException ''AbortError'') # rs, s'))
      else
        (case issue (ev v) w of
           (Some e, w1) \<Rightarrow>
             (case run_writes no_overwrite ev items (st, True, w1) of
                (rs, s') \<Rightarrow> (Inl e # rs, s'))
         | (None, w1) \<Rightarrow>
             (case store_record no_overwrite v st of
                Inl e \<Rightarrow>
                  (case run_writes no_overwrite ev items (st, True, w1) of
                     (rs, s') \<Rightarrow> (Inl e # rs, s'))
              | Inr (k, st') \<Rightarrow>
                  (case run_writes no_overwrite ev items (st', False, w1) of
                     (rs, s') \<Rightarrow> (Inr k # rs, s')))))"

fun first_rejection :: "(js_error + 'a) list \<Rightarrow> js_error option" where
  "first_rejection [] = None"
| "first_rejection (Inl e # xs) = Some e"
| "first_rejection (Inr x # xs) = first_rejection xs"

fun fulfilled :: "(js_error + 'a) list \<Rightarrow> 'a list" where
  "fulfilled [] = []"
| "fulfilled (Inl e # xs) = fulfilled xs"
| "fulfilled (Inr x # xs) = x # fulfilled xs"

text \<open>
  \<open>Promise.all\<close> rejects with the rejection it hears first: that of a promise already
  rejected when it is called (the synchronous failures, in index order), otherwise that
  of the first request to fail. With no rejection it resolves with the results in the
  order of the input.
\<close>

definition promise_all :: "(js_error + 'b) list \<Rightarrow> (js_error + 'a) list \<Rightarrow> 'a list outcome" where
  "promise_all issued settled =
     (case first_rejection issued of
        Some e \<Rightarrow> Rejected e
      | None \<Rightarrow>
          (case first_rejection settled of
             Some e \<Rightarrow> Rejected e
           | None \<Rightarrow> Resolved (fulfilled settled)))"

definition issue_all :: "object_store \<Rightarrow> jsval list \<Rightarrow> (js_error + jsval) list" where
  "issue_all st vs = map (\<lambda>v. case validate_write st v of Some e \<Rightarrow> Inl e | None \<Rightarrow> Inr v) vs"

definition bulkAdd ::
  "Indexa \<Rightarrow> string \<Rightarrow> jsval list \<Rightarrow> world \<Rightarrow> idb_key list outcome \<times> Indexa \<times> world" where
  "bulkAdd ix storeName vs w =
     (case transaction ix storeName ReadWrite w of
        Pending \<Rightarrow> (Pending, ix, w)
      | Rejected e \<Rightarrow> (Rejected e, ix, w)
      | Resolved (dbn, st) \<Rightarrow>
          (case run_writes True (AddRequest storeName) (issue_all st vs) (st, False, w) of
             (results, st', aborted, w1) \<Rightarrow>
               (let w2 = (if aborted then w1 else set_store dbn storeName st' w1)
                in case promise_all (issue_all st vs) results of
                     Resolved ks \<Rightarrow> (Resolved ks, notify ix storeName w2)
                   | Rejected e \<Rightarrow> (Rejected e, ix, w2)
                   | Pending \<Rightarrow> (Pending, ix, w2))))"

definition bulkUpdate ::
  "Indexa \<Rightarrow> string \<Rightarrow> jsval list \<Rightarrow> world \<Rightarrow> idb_key list outcome \<times> Indexa \<times> world" where
  "bulkUpdate ix storeName vs w =
     (case transaction ix storeName ReadWrite w of
        Pending \<Rightarrow> (Pending, ix, w)
      | Rejected e \<Rightarrow> (Rejected e, ix, w)
      | Resolved (dbn, st) \<Rightarrow>
          (case run_writes False (PutRequest storeName) (issue_all st vs) (st, False, w) of
             (results, st', aborted, w1) \<Rightarrow>
               (let w2 = (if aborted then w1 else set_store dbn storeName st' w1)
                in case promise_all (issue_all st vs) results of
                     Resolved ks \<Rightarrow> (Resolved ks, notify ix storeName w2)
                   | Rejected e \<Rightarrow> (Rejected e, ix, w2)
                   | Pending \<Rightarrow> (Pending, ix, w2))))"

subsection \<open>Closing and deleting\<close>

definition close :: "Indexa \<Rightarrow> world \<Rightarrow> unit outcome \<times> world" where
  "close ix w =
     (case dbPromise ix of
        Pending \<Rightarrow> (Pending, w)
      | Rejected e \<Rightarrow> (Rejected e, w)
      | Resolved db \<Rightarrow> (Resolved (), close_connection db w))"

text \<open>
  The engine deletes a database no connection holds open; with one open elsewhere it
  fires \<open>blocked\<close>, which the handler turns into a rejection.
\<close>

definition deleteDatabase :: "Indexa \<Rightarrow> world \<Rightarrow> unit outcome \<times> world" where
  "deleteDatabase ix w =
     (case close ix w of
        (Pending, w1) \<Rightarrow> (Pending, w1)
      | (Rejected e, w1) \<Rightarrow> (Rejected e, w1)
      | (Resolved u, w1) \<Rightarrow>
          (case issue (DeleteDatabaseRequest (dbName ix)) w1 of
             (Some e, w2) \<Rightarrow> (Rejected e, w2)
           | (None, w2) \<Rightarrow>
               (if has_open_connection (dbName ix) w2
                then (Rejected (Error ''Delete blocked''), w2)
                else (Resolved (),
                      w2\<lparr>databases := filter (\<lambda>(n, d). n \<noteq> dbName ix) (databases w2)\<rparr>))))"

section \<open>Observations\<close>

text \<open>Statements about a run speak of the events it added to the trace.\<close>

fun is_open_request :: "event \<Rightarrow> bool" where
  "is_open_request (OpenRequest n v) = True"
| "is_open_request ev = False"

text \<open>
  The listeners registered for a store. A listener is inert on a snapshot when, handed
  it, it calls neither \<open>subscribe\<close> nor \<open>unsubscribe\<close> and leaves the array as it is;
  it is well behaved when in addition it returns normally.
\<close>

definition listeners :: "Indexa \<Rightarrow> string \<Rightarrow> Subscriber list" where
  "listeners ix storeName =
     (case lookup (subscribers ix) storeName of
        Undefined \<Rightarrow> [] | Inherited \<Rightarrow> [] | Array arr \<Rightarrow> arr)"

definition inert :: "Subscriber \<Rightarrow> jsval list \<Rightarrow> bool" where
  "inert cb data = (actions (call cb data) = [] \<and> snapshot (call cb data) = data)"

definition well_behaved :: "Subscriber \<Rightarrow> jsval list \<Rightarrow> bool" where
  "well_behaved cb data = (inert cb data \<and> thrown (call cb data) = None)"

text \<open>
  Of a list of listeners, those up to and including the first that throws; the exception
  of that one, if any; and the events of a cycle that hands the snapshot to those
  listeners in turn and ends with the exception unhandled.
\<close>

fun reached :: "Subscriber list \<Rightarrow> jsval list \<Rightarrow> Subscriber list" where
  "reached [] data = []"
| "reached (cb # cbs) data =
     (case thrown (call cb data) of Some e \<Rightarrow> [cb] | None \<Rightarrow> cb # reached cbs data)"

fun first_throw :: "Subscriber list \<Rightarrow> jsval list \<Rightarrow> js_error option" where
  "first_throw [] data = None"
| "first_throw (cb # cbs) data =
     (case thrown (call cb data) of Some e \<Rightarrow> Some e | None \<Rightarrow> first_throw cbs data)"

definition cycle :: "Subscriber list \<Rightarrow> jsval list \<Rightarrow> event list" where
  "cycle cbs data =
     map (\<lambda>cb. Delivered (sid cb) data) (reached cbs data) @
     (case first_throw cbs data of None \<Rightarrow> [] | Some e \<Rightarrow> [UnhandledRejection e])"

text \<open>
  Two instances that differ at most in the registry, and two worlds that differ at most in
  the trace and in the queue of initial reads.
\<close>

definition same_connection :: "Indexa \<Rightarrow> Indexa \<Rightarrow> bool" where
  "same_connection ix ix' =
     (dbName ix' = dbName ix \<and> dbVersion ix' = dbVersion ix \<and> stores ix' = stores ix \<and>
      dbPromise ix' = dbPromise ix)"

definition same_engine :: "world \<Rightarrow> world \<Rightarrow> bool" where
  "same_engine w w' =
     (databases w' = databases w \<and> connections w' = connections w \<and> faults w' = faults w \<and>
      debugEnabled w' = debugEnabled w)"

fun is_delivery :: "event \<Rightarrow> bool" where
  "is_delivery (Delivered n data) = True"
| "is_delivery ev = False"

fun is_cycle_event :: "event \<Rightarrow> bool" where
  "is_cycle_event (Delivered n data) = True"
| "is_cycle_event (UnhandledRejection e) = True"
| "is_cycle_event ev = False"

fun is_visit :: "event \<Rightarrow> bool" where
  "is_visit (Visited v k) = True"
| "is_visit ev = False"

text \<open>
  What a cursor adds to the trace when it walks the given records: for each record the
  call of the callback, then the request to advance.
\<close>

definition cursor_events :: "string \<Rightarrow> (idb_key \<times> jsval) list \<Rightarrow> event list" where
  "cursor_events storeName rs =
     concat (map (\<lambda>(k, v). [Visited v k, ContinueRequest storeName]) rs)"


text \<open>
  The requests of a run are numbered from 0 in the order in which the engine processes
  them: \<open>fault_at n w\<close> is the failure the engine reports for request \<open>n\<close>, if any, and
  \<open>no_fault_before n w\<close> says that it reports none for the requests before \<open>n\<close>.
\<close>

definition fault_at :: "nat \<Rightarrow> world \<Rightarrow> js_error option" where
  "fault_at n w = (if n < length (faults w) then faults w ! n else None)"

definition no_fault_before :: "nat \<Rightarrow> world \<Rightarrow> bool" where
  "no_fault_before n w = list_all (\<lambda>f. f = None) (take n (faults w))"

text \<open>
  The errors that come from the engine in one run: the error the connection promise
  rejected with, a failure the engine reports for a request, and the exceptions the engine
  throws or reports by its own rules.
\<close>

definition engine_error :: "Indexa \<Rightarrow> world \<Rightarrow> js_error \<Rightarrow> bool" where
  "engine_error ix w e =
     (dbPromise ix = Rejected e \<or> Some e \<in> set (faults w) \<or>
      e \<in> set (map DOMException
                 [''InvalidStateError'', ''NotFoundError'', ''DataError'', ''ConstraintError'']))"

text \<open>
  What the engine makes of a list of values written one after the other: the keys and the
  store at the end, when every write is accepted.
\<close>

fun write_all ::
  "bool \<Rightarrow> jsval list \<Rightarrow> object_store \<Rightarrow> (idb_key list \<times> object_store) option" where
  "write_all no_overwrite [] st = Some ([], st)"
| "write_all no_overwrite (v # vs) st =
     (case store_record no_overwrite v st of
        Inl e \<Rightarrow> None
      | Inr (k, st1) \<Rightarrow>
          (case write_all no_overwrite vs st1 of
             None \<Rightarrow> None
           | Some (ks, st') \<Rightarrow> Some (k # ks, st')))"

text \<open>
  What the engine keeps for a value written under key \<open>k\<close>: the value itself when it
  carries a key at the store's key path, otherwise the value with \<open>k\<close> set there. And the
  records a store of a database holds in a world.
\<close>

definition stored_as :: "object_store \<Rightarrow> idb_key \<Rightarrow> jsval \<Rightarrow> jsval" where
  "stored_as st k v =
     (case extract_key (os_keyPath st) v of
        KKey k' \<Rightarrow> v
      | _ \<Rightarrow> inject_key (os_keyPath st) k v)"

definition records_of :: "string \<Rightarrow> string \<Rightarrow> world \<Rightarrow> (idb_key \<times> jsval) list" where
  "records_of dbn storeName w =
     (case find_store dbn storeName w of None \<Rightarrow> [] | Some st \<Rightarrow> os_records st)"

text \<open>
  The invariant of the engine's stores: the records of a store are kept in strictly
  ascending key order, so no key occurs twice.
\<close>

definition wf_store :: "object_store \<Rightarrow> bool" where
  "wf_store st = sorted_wrt (<) (map fst (os_records st))"

definition wf_world :: "world \<Rightarrow> bool" where
  "wf_world w = (\<forall>(n, d)\<in>set (databases w). \<forall>(s, st)\<in>set (db_stores d). wf_store st)"

section \<open>A running example\<close>

text \<open>
  The schema of the README, two keyless records and one that carries the key 1, and three
  listeners: one returns normally, one throws, and one unsubscribes itself from the store
  \<open>users\<close> when it is called.
\<close>

definition users_schema :: DBSchemaConfig where
  "users_schema = [(''users'', \<lparr>keyPath = ''id'', autoIncrement = Some True\<rparr>)]"

definition alice :: jsval where
  "alice = VObj [(''name'', VStr ''Alice'')]"

definition bob :: jsval where
  "bob = VObj [(''name'', VStr ''Bob'')]"

definition duplicate :: jsval where
  "duplicate = VObj [(''id'', VNum 1), (''name'', VStr ''Alice'')]"

definition quiet :: "nat \<Rightarrow> Subscriber" where
  "quiet n = Subscriber n (\<lambda>data. Reaction [] data None)"

definition faulty :: "nat \<Rightarrow> Subscriber" where
  "faulty n = Subscriber n (\<lambda>data. Reaction [] data (Some (Error ''listener failed'')))"

definition leaver :: "nat \<Rightarrow> Subscriber" where
  "leaver n = Subscriber n (\<lambda>data. Reaction [Unsubscribe ''users'' n] data None)"

text \<open>
  Two more listeners: one subscribes a second callback to the store \<open>users\<close> when it is
  called, and one empties the array it is handed.
\<close>

definition recruiter :: "nat \<Rightarrow> Subscriber \<Rightarrow> Subscriber" where
  "recruiter n cb = Subscriber n (\<lambda>data. Reaction [Subscribe ''users'' cb] data None)"

definition scribbler :: "nat \<Rightarrow> Subscriber" where
  "scribbler n = Subscriber n (\<lambda>data. Reaction [] [] None)"

text \<open>
  An instance on a new database, the world it leaves, and the worlds after one \<open>add\<close>,
  after a \<open>bulkAdd\<close> of two records, and with an engine that fails the next request.
\<close>

definition fresh :: Indexa where
  "fresh = fst (constructor ''LocalDB'' 1 users_schema empty_world)"

definition fresh_world :: world where
  "fresh_world = snd (constructor ''LocalDB'' 1 users_schema empty_world)"

definition one_user :: world where
  "one_user = snd (snd (add fresh ''users'' alice fresh_world))"

definition two_users :: world where
  "two_users = snd (snd (bulkAdd fresh ''users'' [alice, bob] fresh_world))"

definition failing_world :: world where
  "failing_world = one_user\<lparr>faults := [Some (DOMException ''UnknownError'')]\<rparr>"


definition watched :: Indexa where
  "watched =
     fst (snd (subscribe (fst (snd (subscribe fresh ''users'' (faulty 1) fresh_world)))
                 ''users'' (quiet 2) fresh_world))"

definition left_alone :: Indexa where
  "left_alone = fresh\<lparr>subscribers := [(''users'', [leaver 3, quiet 2])]\<rparr>"

text \<open>
  A database left at version 2, and an instance that then asks for version 1: its open
  fails with \<open>VersionError\<close>.
\<close>

definition newer_world :: world where
  "newer_world = snd (constructor ''LocalDB'' 2 users_schema empty_world)"

definition stale :: Indexa where
  "stale = fst (constructor ''LocalDB'' 1 users_schema newer_world)"

definition stale_world :: world where
  "stale_world = snd (constructor ''LocalDB'' 1 users_schema newer_world)"

text \<open>
  A database whose only store is named \<open>toString\<close>, like the method every object
  inherits.
\<close>

definition odd_schema :: DBSchemaConfig where
  "odd_schema = [(''toString'', \<lparr>keyPath = ''id'', autoIncrement = Some True\<rparr>)]"

definition odd :: Indexa where
  "odd = fst (constructor ''OddDB'' 1 odd_schema empty_world)"

definition odd_world :: world where
  "odd_world = snd (constructor ''OddDB'' 1 odd_schema empty_world)"

text \<open>The store and the world of the example, written out.\<close>

definition users_store :: "int \<Rightarrow> (idb_key \<times> jsval) list \<Rightarrow> object_store" where
  "users_store g rs =
     \<lparr>os_keyPath = ''id'', os_autoIncrement = True, os_generator = g,
      os_records = rs, os_indexes = []\<rparr>"

definition users_world :: "int \<Rightarrow> (idb_key \<times> jsval) list \<Rightarrow> event list \<Rightarrow> world" where
  "users_world g rs tr =
     \<lparr>databases =
        [(''LocalDB'', \<lparr>db_version = 1, db_stores = [(''users'', users_store g rs)]\<rparr>)],
      connections = [(''LocalDB'', True)], faults = [], debugEnabled = False, trace = tr,
      pending = []\<rparr>"

section \<open>Basic facts\<close>

lemmas example_defs =
  users_schema_def alice_def bob_def duplicate_def quiet_def faulty_def leaver_def
  recruiter_def scribbler_def empty_world_def newer_world_def stale_def stale_world_def
  odd_schema_def odd_def odd_world_def

lemmas engine_defs =
  emit_def issue_def new_events_def has_open_connection_def close_connection_def
  find_store_def set_store_def validate_write_def bump_generator_def store_record_def
  index_getAll_def createObjectStore_def debugLog_def setDebug_def

lemmas class_defs =
  init_def constructor_def transaction_def get_def getAll_def getByIndex_def count_def
  exists_def iterate_def lookup_def object_prototype_members_def unsubscribe_def
  splice1_def register_def invoke_def notify_def initial_delivery_def subscribe_def
  run_pending_def add_def update_def delete_def clear_def promise_all_def issue_all_def
  bulkAdd_def bulkUpdate_def close_def deleteDatabase_def

lemmas eval_defs =
  example_defs engine_defs class_defs Let_def users_world_def users_store_def listeners_def
  cycle_def

lemma trace_emit [simp]: "trace (emit ev w) = trace w @ [ev]"
  by (simp add: emit_def)

lemma trace_debugLog:
  "trace (debugLog msg w) = trace w @ (if debugEnabled w then [ConsoleLog msg] else [])"
  by (simp add: debugLog_def)

lemma issue_trace: "issue ev w = (r, w1) \<Longrightarrow> trace w1 = trace w @ [ev]"
  by (auto simp: issue_def split: list.splits)

lemma new_events_self [simp]: "new_events w w = []"
  by (simp add: new_events_def)

lemma transaction_rejected:
  "dbPromise ix = Rejected e \<Longrightarrow> transaction ix storeName mode w = Rejected e"
  by (simp add: transaction_def)

lemma idb_key_less [simp]:
  "(KNum a < KNum b) = (a < b)" "(KNum a < KStr t) = True"
  "(KStr s < KNum b) = False" "(KStr s < KStr t) = (s < t)"
  by (auto simp: less_idb_key_def)

lemma idb_key_le [simp]:
  "(KNum a \<le> KNum b) = (a \<le> b)" "(KNum a \<le> KStr t) = True"
  "(KStr s \<le> KNum b) = False" "(KStr s \<le> KStr t) = (s \<le> t)"
  by (simp_all add: less_eq_idb_key_def)

section \<open>Facts about the engine and the helper methods\<close>

lemma map_of_put_entry: "map_of (put_entry k v xs) = (map_of xs)(k \<mapsto> v)"
  by (induction xs) (auto simp: fun_eq_iff)

lemma set_put_entry: "set (put_entry k v xs) \<subseteq> insert (k, v) (set xs)"
  by (induction xs) (auto split: if_splits)

lemma find_store_set_store:
  "find_store dbn s w = Some st \<Longrightarrow> find_store dbn s (set_store dbn s st' w) = Some st'"
  by (auto simp: find_store_def set_store_def map_of_put_entry split: option.splits)

lemma set_store_fields [simp]:
  "connections (set_store dbn s st w) = connections w"
  "faults (set_store dbn s st w) = faults w"
  "trace (set_store dbn s st w) = trace w"
  "debugEnabled (set_store dbn s st w) = debugEnabled w"
  "pending (set_store dbn s st w) = pending w"
  by (simp_all add: set_store_def split: option.splits)

lemma emit_fields [simp]:
  "databases (emit ev w) = databases w"
  "connections (emit ev w) = connections w"
  "faults (emit ev w) = faults w"
  "debugEnabled (emit ev w) = debugEnabled w"
  "pending (emit ev w) = pending w"
  by (simp_all add: emit_def)

lemma issue_fields:
  assumes "issue ev w = (r, w1)"
  shows "databases w1 = databases w" "connections w1 = connections w"
    "debugEnabled w1 = debugEnabled w" "faults w1 = tl (faults w)"
    "r = (case faults w of [] \<Rightarrow> None | f # fs \<Rightarrow> f)" "pending w1 = pending w"
  using assms by (auto simp: issue_def split: list.splits)

lemma issue_no_fault: "faults w = [] \<Longrightarrow> issue ev w = (None, emit ev w)"
  by (simp add: issue_def)

lemma issue_fault: "faults w = f # fs \<Longrightarrow> issue ev w = (f, emit ev (w\<lparr>faults := fs\<rparr>))"
  by (simp add: issue_def)

lemma find_store_cong:
  "databases w' = databases w \<Longrightarrow> find_store dbn s w' = find_store dbn s w"
  by (simp add: find_store_def)

lemma transaction_cong:
  "databases w' = databases w \<Longrightarrow> connections w' = connections w \<Longrightarrow>
   transaction ix s m w' = transaction ix s m' w"
  using find_store_cong [of w' w]
  by (auto simp: transaction_def split: outcome.splits option.splits)

lemma transaction_mode: "transaction ix s m w = transaction ix s m' w"
  by (simp add: transaction_def)

lemma transaction_subscribers [simp]:
  "transaction (ix\<lparr>subscribers := subs\<rparr>) s m w = transaction ix s m w"
  by (simp add: transaction_def)

lemma transaction_store:
  "transaction ix s m w = Resolved (dbn, st) \<Longrightarrow> find_store dbn s w = Some st"
  by (auto simp: transaction_def split: outcome.splits if_splits option.splits)

lemma transaction_set_store:
  assumes "transaction ix s m w = Resolved (dbn, st)"
  shows "transaction ix s m' (set_store dbn s st' w) = Resolved (dbn, st')"
  using assms
  by (auto simp: transaction_def find_store_set_store split: outcome.splits if_splits option.splits)

lemma getAll_subscribers [simp]: "getAll (ix\<lparr>subscribers := subs\<rparr>) s w = getAll ix s w"
  by (simp add: getAll_def)

lemma getAll_eq:
  assumes "transaction ix s m w = Resolved (dbn, st)"
  shows "getAll ix s w =
           (case faults w of
              [] \<Rightarrow> (Resolved (map snd (os_records st)), emit (GetAllRequest s) w)
            | None # fs \<Rightarrow> (Resolved (map snd (os_records st)), emit (GetAllRequest s) (w\<lparr>faults := fs\<rparr>))
            | Some e # fs \<Rightarrow> (Rejected e, emit (GetAllRequest s) (w\<lparr>faults := fs\<rparr>)))"
  using assms transaction_mode [of ix s ReadOnly w m]
  by (auto simp: getAll_def issue_def split: list.splits option.splits)

lemma getAll_world:
  assumes "getAll ix s w = (r, w1)"
  shows "databases w1 = databases w" "connections w1 = connections w"
    "pending w1 = pending w" "debugEnabled w1 = debugEnabled w"
    "faults w = [] \<Longrightarrow> faults w1 = []"
    "trace w1 = trace w \<or> trace w1 = trace w @ [GetAllRequest s]"
  using assms
  by (auto simp: getAll_def issue_def split: outcome.splits prod.splits option.splits list.splits)

section \<open>What a notification changes\<close>

text \<open>
  Whatever the listeners do, a notification leaves the instance as it was except for the
  registry, and the world as it was except for the trace and the queue of initial reads. It
  adds deliveries to the trace, and at most one unhandled rejection.
\<close>

lemma same_connection_refl [simp]: "same_connection ix ix"
  by (simp add: same_connection_def)

lemma same_connection_update [simp]: "same_connection ix (ix\<lparr>subscribers := subs\<rparr>)"
  by (simp add: same_connection_def)

lemma same_connection_trans:
  "same_connection a b \<Longrightarrow> same_connection b c \<Longrightarrow> same_connection a c"
  by (simp add: same_connection_def)

lemma same_engine_refl [simp]: "same_engine w w"
  by (simp add: same_engine_def)

lemma same_engine_trans: "same_engine a b \<Longrightarrow> same_engine b c \<Longrightarrow> same_engine a c"
  by (simp add: same_engine_def)

lemma same_engine_emit [simp]: "same_engine w (emit ev w)"
  by (simp add: same_engine_def)

lemma unsubscribe_instance: "same_connection ix (snd (unsubscribe ix s cb))"
  by (simp add: unsubscribe_def split: property.splits option.splits)

lemma register_instance: "same_connection ix (snd (register ix s cb))"
  by (simp add: register_def split: property.splits)

lemma perform_shape:
  "perform acts ix w = (r, ix', w') \<Longrightarrow>
   same_connection ix ix' \<and> same_engine w w' \<and> trace w' = trace w"
proof (induction acts ix w rule: perform.induct)
  case (1 ix w)
  then show ?case by simp
next
  case (2 storeName n acts ix w)
  show ?case
  proof (cases "lookup (subscribers ix) storeName")
    case Undefined
    with 2 show ?thesis by simp
  next
    case Inherited
    with 2 show ?thesis by simp
  next
    case (Array arr)
    show ?thesis
    proof (cases "find (\<lambda>cb. sid cb = n) arr")
      case None
      with 2 Array show ?thesis by simp
    next
      case (Some cb)
      with 2(3) [OF Array Some] 2(4) Array
      have "same_connection (snd (unsubscribe ix storeName cb)) ix' \<and> same_engine w w' \<and>
            trace w' = trace w"
        by simp
      then show ?thesis
        using unsubscribe_instance [of ix storeName cb] same_connection_trans by blast
    qed
  qed
next
  case (3 storeName cb acts ix w)
  obtain e ix1 where reg: "register ix storeName cb = (e, ix1)"
    by (cases "register ix storeName cb")
  then have ix1: "same_connection ix ix1"
    using register_instance [of ix storeName cb] by simp
  show ?case
  proof (cases e)
    case None
    with 3 reg have "same_connection ix1 ix' \<and>
        same_engine (w\<lparr>pending := pending w @ [(storeName, cb)]\<rparr>) w' \<and>
        trace w' = trace (w\<lparr>pending := pending w @ [(storeName, cb)]\<rparr>)"
      by simp
    with ix1 show ?thesis
      using same_connection_trans by (auto simp: same_engine_def)
  next
    case (Some a)
    with 3 reg ix1 show ?thesis by simp
  qed
qed


lemma invoke_shape:
  assumes "invoke cb data ix w = (r, data', ix', w')"
  shows "same_connection ix ix'" "same_engine w w'"
    "trace w' = trace w @ [Delivered (sid cb) data]" "data' = snapshot (call cb data)"
proof -
  obtain r1 ix1 w1 where
    p: "perform (actions (call cb data)) ix (emit (Delivered (sid cb) data) w) = (r1, ix1, w1)"
    by (metis prod_cases3)
  from assms have eq: "ix' = ix1" "w' = w1" "data' = snapshot (call cb data)"
    by (auto simp: invoke_def p split: option.splits)
  from perform_shape [OF p] eq
  show "same_connection ix ix'" "same_engine w w'"
    "trace w' = trace w @ [Delivered (sid cb) data]" "data' = snapshot (call cb data)"
    by (auto simp: same_engine_def)
qed

lemma forEach_shape:
  "forEach n k s data ix w = (r, ix', w') \<Longrightarrow>
   same_connection ix ix' \<and> same_engine w w' \<and>
   (\<exists>evs. trace w' = trace w @ evs \<and> list_all is_delivery evs)"
proof (induction n arbitrary: k data ix w)
  case 0
  then show ?case by simp
next
  case (Suc n)
  show ?case
  proof (cases "lookup (subscribers ix) s")
    case Undefined
    with Suc show ?thesis by simp
  next
    case Inherited
    with Suc show ?thesis by simp
  next
    case (Array arr)
    show ?thesis
    proof (cases "k < length arr")
      case False
      with Suc Array show ?thesis by simp
    next
      case True
      obtain r1 d1 ix1 w1 where i: "invoke (arr ! k) data ix w = (r1, d1, ix1, w1)"
        by (metis prod_cases4)
      note sh = invoke_shape [OF i]
      show ?thesis
      proof (cases r1)
        case (Some e)
        with Suc.prems Array True i have "ix' = ix1" "w' = w1"
          by simp_all
        with sh show ?thesis
          by simp
      next
        case None
        with Suc.prems Array True i have "forEach n (Suc k) s d1 ix1 w1 = (r, ix', w')"
          by simp
        from Suc.IH [OF this] obtain evs where
          "same_connection ix1 ix'" "same_engine w1 w'" "trace w' = trace w1 @ evs"
          "list_all is_delivery evs"
          by blast
        with sh show ?thesis
          using same_connection_trans [of ix ix1 ix'] same_engine_trans [of w w1 w']
          by simp
      qed
    qed
  qed
qed

lemma is_delivery_cycle: "list_all is_delivery evs \<Longrightarrow> list_all is_cycle_event evs"
proof (induction evs)
  case Nil
  then show ?case by simp
next
  case (Cons ev evs)
  then show ?case by (cases ev) simp_all
qed

lemma notify_shape:
  assumes g: "getAll ix s w = (r, w1)"
  shows "same_connection ix (fst (notify ix s w))" "same_engine w1 (snd (notify ix s w))"
    "\<exists>evs. trace (snd (notify ix s w)) = trace w1 @ evs \<and> list_all is_cycle_event evs"
proof -
  have "same_connection ix (fst (notify ix s w)) \<and> same_engine w1 (snd (notify ix s w)) \<and>
        (\<exists>evs. trace (snd (notify ix s w)) = trace w1 @ evs \<and> list_all is_cycle_event evs)"
  proof (cases r)
    case Pending
    with g show ?thesis by (simp add: notify_def)
  next
    case (Rejected e)
    with g show ?thesis by (simp add: notify_def)
  next
    case (Resolved data)
    show ?thesis
    proof (cases "lookup (subscribers ix) s")
      case Undefined
      with g Resolved show ?thesis by (simp add: notify_def)
    next
      case Inherited
      with g Resolved show ?thesis by (simp add: notify_def)
    next
      case (Array arr)
      obtain r2 ix2 w2 where f: "forEach (length arr) 0 s data ix w1 = (r2, ix2, w2)"
        by (metis prod_cases3)
      from forEach_shape [OF f] obtain evs where sh: "same_connection ix ix2" "same_engine w1 w2"
        "trace w2 = trace w1 @ evs" "list_all is_delivery evs"
        by blast
      from sh(4) have "list_all is_cycle_event evs"
        by (rule is_delivery_cycle)
      with sh g Resolved Array f show ?thesis
        by (cases r2) (auto simp: notify_def same_engine_def)
    qed
  qed
  then show "same_connection ix (fst (notify ix s w))" "same_engine w1 (snd (notify ix s w))"
    "\<exists>evs. trace (snd (notify ix s w)) = trace w1 @ evs \<and> list_all is_cycle_event evs"
    by simp_all
qed


lemma transaction_same:
  "same_connection ix ix' \<Longrightarrow> databases w' = databases w \<Longrightarrow> connections w' = connections w \<Longrightarrow>
   transaction ix' s m w' = transaction ix s m' w"
  using find_store_cong [of w' w]
  by (auto simp: transaction_def same_connection_def split: outcome.splits option.splits)

lemma notify_fields [simp]:
  "databases (snd (notify ix s w)) = databases w"
  "connections (snd (notify ix s w)) = connections w"
  "debugEnabled (snd (notify ix s w)) = debugEnabled w"
  "dbPromise (fst (notify ix s w)) = dbPromise ix"
proof -
  obtain r w1 where g: "getAll ix s w = (r, w1)"
    by (cases "getAll ix s w")
  from notify_shape(1,2) [OF g] getAll_world(1,2,4) [OF g]
  show "databases (snd (notify ix s w)) = databases w"
    "connections (snd (notify ix s w)) = connections w"
    "debugEnabled (snd (notify ix s w)) = debugEnabled w"
    "dbPromise (fst (notify ix s w)) = dbPromise ix"
    by (simp_all add: same_engine_def same_connection_def)
qed

lemma notify_no_faults: "faults w = [] \<Longrightarrow> faults (snd (notify ix s w)) = []"
proof -
  assume nf: "faults w = []"
  obtain r w1 where g: "getAll ix s w = (r, w1)"
    by (cases "getAll ix s w")
  from notify_shape(2) [OF g] getAll_world(5) [OF g nf]
  show ?thesis
    by (simp add: same_engine_def)
qed

lemma notify_same_connection: "same_connection ix (fst (notify ix s w))"
proof -
  obtain r w1 where g: "getAll ix s w = (r, w1)"
    by (cases "getAll ix s w")
  from notify_shape(1) [OF g] show ?thesis .
qed

lemma transaction_after_notify:
  "transaction (fst (notify ix s w)) s' m (snd (notify ix s w)) = transaction ix s' m' w"
  by (rule transaction_same) (simp_all add: notify_same_connection)

lemma cycle_events_no_request:
  "list_all is_cycle_event evs \<Longrightarrow> GetAllRequest s \<notin> set evs"
  by (induction evs) auto

lemma notify_reads_once:
  assumes "transaction ix s m w = Resolved (dbn, st)"
  shows "\<exists>rest. trace (snd (notify ix s w)) = trace w @ GetAllRequest s # rest \<and>
                GetAllRequest s \<notin> set rest"
proof -
  obtain r w1 where g: "getAll ix s w = (r, w1)"
    by (cases "getAll ix s w")
  have "trace w1 = trace w @ [GetAllRequest s]"
    using g getAll_eq [OF assms] by (auto split: list.splits option.splits)
  with notify_shape(3) [OF g] cycle_events_no_request [of _ s] show ?thesis
    by auto
qed

lemma initial_delivery_shape:
  assumes g: "getAll ix s w = (r, w1)"
  shows "same_connection ix (fst (initial_delivery ix s cb w))"
    "same_engine w1 (snd (initial_delivery ix s cb w))"
    "\<exists>evs. trace (snd (initial_delivery ix s cb w)) = trace w1 @ evs \<and>
           list_all is_cycle_event evs"
proof -
  have "same_connection ix (fst (initial_delivery ix s cb w)) \<and>
        same_engine w1 (snd (initial_delivery ix s cb w)) \<and>
        (\<exists>evs. trace (snd (initial_delivery ix s cb w)) = trace w1 @ evs \<and>
           list_all is_cycle_event evs)"
  proof (cases r)
    case Pending
    with g show ?thesis by (simp add: initial_delivery_def)
  next
    case (Rejected e)
    with g show ?thesis by (simp add: initial_delivery_def)
  next
    case (Resolved data)
    obtain r2 d2 ix2 w2 where i: "invoke cb data ix w1 = (r2, d2, ix2, w2)"
      by (metis prod_cases4)
    from invoke_shape [OF i] g Resolved i show ?thesis
      by (cases r2) (auto simp: initial_delivery_def same_engine_def)
  qed
  then show "same_connection ix (fst (initial_delivery ix s cb w))"
    "same_engine w1 (snd (initial_delivery ix s cb w))"
    "\<exists>evs. trace (snd (initial_delivery ix s cb w)) = trace w1 @ evs \<and>
           list_all is_cycle_event evs"
    by simp_all
qed

lemma initial_delivery_fields [simp]:
  "databases (snd (initial_delivery ix s cb w)) = databases w"
  "connections (snd (initial_delivery ix s cb w)) = connections w"
  "dbPromise (fst (initial_delivery ix s cb w)) = dbPromise ix"
proof -
  obtain r w1 where g: "getAll ix s w = (r, w1)"
    by (cases "getAll ix s w")
  from initial_delivery_shape(1,2) [OF g] getAll_world(1,2) [OF g]
  show "databases (snd (initial_delivery ix s cb w)) = databases w"
    "connections (snd (initial_delivery ix s cb w)) = connections w"
    "dbPromise (fst (initial_delivery ix s cb w)) = dbPromise ix"
    by (simp_all add: same_engine_def same_connection_def)
qed

lemma subscribe_fields [simp]:
  "databases (snd (snd (subscribe ix s cb w))) = databases w"
  "connections (snd (snd (subscribe ix s cb w))) = connections w"
  "dbPromise (fst (snd (subscribe ix s cb w))) = dbPromise ix"
proof -
  obtain e ix1 where reg: "register ix s cb = (e, ix1)"
    by (cases "register ix s cb")
  then have "dbPromise ix1 = dbPromise ix"
    using register_instance [of ix s cb] by (simp add: same_connection_def)
  then show "databases (snd (snd (subscribe ix s cb w))) = databases w"
    "connections (snd (snd (subscribe ix s cb w))) = connections w"
    "dbPromise (fst (snd (subscribe ix s cb w))) = dbPromise ix"
    by (cases e; simp add: subscribe_def reg)+
qed

lemma unsubscribe_dbPromise [simp]: "dbPromise (snd (unsubscribe ix s cb)) = dbPromise ix"
  using unsubscribe_instance [of ix s cb] by (simp add: same_connection_def)

lemma run_pending_fields [simp]:
  "databases (snd (run_pending ix w)) = databases w"
  "connections (snd (run_pending ix w)) = connections w"
  "dbPromise (fst (run_pending ix w)) = dbPromise ix"
  by (simp_all add: run_pending_def split: list.splits)

text \<open>
  With inert listeners the loop is the plain one: it hands the same snapshot to the
  listeners in the order of the array, up to the first that throws, and the registry stays
  as it is.
\<close>

lemma invoke_inert:
  "inert cb data \<Longrightarrow>
   invoke cb data ix w = (thrown (call cb data), data, ix, emit (Delivered (sid cb) data) w)"
  by (simp add: invoke_def inert_def split: option.splits)

lemma forEach_inert:
  "lookup (subscribers ix) s = Array arr \<Longrightarrow> n + k = length arr \<Longrightarrow>
   \<forall>cb\<in>set (reached (drop k arr) data). inert cb data \<Longrightarrow>
   forEach n k s data ix w =
     (first_throw (drop k arr) data, ix,
      w\<lparr>trace := trace w @ map (\<lambda>cb. Delivered (sid cb) data) (reached (drop k arr) data)\<rparr>)"
proof (induction n arbitrary: k w)
  case 0
  then show ?case by simp
next
  case (Suc n)
  from Suc.prems(2) have k: "k < length arr"
    by simp
  then have d: "drop k arr = arr ! k # drop (Suc k) arr"
    by (simp add: Cons_nth_drop_Suc)
  from Suc.prems(3) have i: "inert (arr ! k) data"
    by (simp add: d split: option.splits)
  show ?case
  proof (cases "thrown (call (arr ! k) data)")
    case (Some e)
    with Suc.prems(1) k i show ?thesis
      by (simp add: d invoke_inert emit_def)
  next
    case None
    with Suc.prems(3) have rest: "\<forall>cb\<in>set (reached (drop (Suc k) arr) data). inert cb data"
      by (simp add: d)
    from Suc.prems(2) have "n + Suc k = length arr"
      by simp
    from Suc.IH [OF Suc.prems(1) this rest] None Suc.prems(1) k i show ?thesis
      by (simp add: d invoke_inert emit_def)
  qed
qed

lemma notify_inert:
  assumes "getAll ix s w = (Resolved data, w1)" and "lookup (subscribers ix) s = Array arr"
    and "\<forall>cb\<in>set (reached arr data). inert cb data"
  shows "notify ix s w = (ix, w1\<lparr>trace := trace w1 @ cycle arr data\<rparr>)"
  using assms forEach_inert [of ix s arr "length arr" 0 data w1]
  by (auto simp: notify_def cycle_def emit_def split: option.splits)

lemma notify_undefined:
  assumes "getAll ix s w = (Resolved data, w1)" and "lookup (subscribers ix) s = Undefined"
  shows "notify ix s w = (ix, w1)"
  using assms by (simp add: notify_def)

lemma notify_inherited:
  assumes "getAll ix s w = (Resolved data, w1)" and "lookup (subscribers ix) s = Inherited"
  shows "notify ix s w = (ix, emit (UnhandledRejection TypeError) w1)"
  using assms by (simp add: notify_def)

lemma reached_all:
  "\<forall>cb\<in>set cbs. thrown (call cb data) = None \<Longrightarrow>
   reached cbs data = cbs \<and> first_throw cbs data = None"
  by (induction cbs) auto


lemma reached_first:
  "k < length cbs \<Longrightarrow> thrown (call (cbs ! k) data) = Some e \<Longrightarrow>
   \<forall>j<k. thrown (call (cbs ! j) data) = None \<Longrightarrow>
   reached cbs data = take (Suc k) cbs \<and> first_throw cbs data = Some e"
proof (induction cbs arbitrary: k)
  case Nil
  then show ?case by simp
next
  case (Cons cb cbs)
  show ?case
  proof (cases k)
    case 0
    with Cons.prems show ?thesis by simp
  next
    case (Suc n)
    with Cons.prems have "thrown (call cb data) = None"
      by auto
    moreover from Suc Cons.prems
    have "reached cbs data = take (Suc n) cbs \<and> first_throw cbs data = Some e"
      by (intro Cons.IH) auto
    ultimately show ?thesis
      using Suc by simp
  qed
qed


section \<open>The connection promise\<close>

lemma init_opens_once:
  "init name ver schema w = (p, w1) \<Longrightarrow>
   filter is_open_request (new_events w w1) = (if 0 < ver then [OpenRequest name ver] else [])"
  unfolding init_def new_events_def
  by (auto simp: Let_def trace_debugLog dest!: issue_trace
      split: if_splits prod.splits option.splits)

lemma failed_instance_rejects:
  assumes "dbPromise ix = Rejected e"
  shows "add ix s v w = (Rejected e, ix, w)" "get ix s k w = (Rejected e, w)"
    "getAll ix s w = (Rejected e, w)" "update ix s v w = (Rejected e, ix, w)"
    "delete ix s k w = (Rejected e, ix, w)" "clear ix s w = (Rejected e, ix, w)"
    "getByIndex ix s i q w = (Rejected e, w)" "count ix s w = (Rejected e, w)"
    "exists ix s k w = (Rejected e, w)" "bulkAdd ix s vs w = (Rejected e, ix, w)"
    "bulkUpdate ix s vs w = (Rejected e, ix, w)" "iterate ix s f w = (Rejected e, w)"
    "close ix w = (Rejected e, w)" "deleteDatabase ix w = (Rejected e, w)"
  using assms
  by (simp_all add: transaction_rejected add_def get_def getAll_def update_def delete_def
      clear_def getByIndex_def count_def exists_def bulkAdd_def bulkUpdate_def iterate_def
      close_def deleteDatabase_def)

lemma writes_keep_connection:
  "dbPromise (fst (snd (add ix s v w))) = dbPromise ix"
  "dbPromise (fst (snd (update ix s v w))) = dbPromise ix"
  "dbPromise (fst (snd (delete ix s k w))) = dbPromise ix"
  "dbPromise (fst (snd (clear ix s w))) = dbPromise ix"
  "dbPromise (fst (snd (bulkAdd ix s vs w))) = dbPromise ix"
  "dbPromise (fst (snd (bulkUpdate ix s vs w))) = dbPromise ix"
  by (auto simp: add_def update_def delete_def clear_def bulkAdd_def bulkUpdate_def Let_def
      split: outcome.splits option.splits prod.splits sum.splits)

lemma stale_rejected: "dbPromise stale = Rejected (DOMException ''VersionError'')"
  by (simp add: example_defs engine_defs class_defs)

lemma stale_constructed:
  "constructor ''LocalDB'' 1 users_schema newer_world = (stale, stale_world)"
  by (simp add: stale_def stale_world_def)

lemma stale_no_subscribers: "stale\<lparr>subscribers := []\<rparr> = stale"
  by (simp add: example_defs engine_defs class_defs)

text \<open>
  Claim C5. The connection promise is computed once, by the constructor, which hands the
  engine one open request (none when \<open>indexedDB.open\<close> itself throws). No method
  replaces it: over the instance's lifetime only the listener registry changes. When the
  open failed with \<open>e\<close>, every operation of the instance, whatever its registry holds,
  rejects with that same \<open>e\<close> and leaves the instance and the world as they were, so no
  further open request is ever issued.
\<close>

theorem open_once_failure_permanent:
  assumes "constructor name ver schema w0 = (ix, w1)"
  shows "dbPromise ix = fst (init name ver schema w0) \<and>
         filter is_open_request (new_events w0 w1) =
           (if 0 < ver then [OpenRequest name ver] else []) \<and>
         dbPromise (fst (snd (subscribe ix s cb w))) = dbPromise ix \<and>
         dbPromise (snd (unsubscribe ix s cb)) = dbPromise ix \<and>
         dbPromise (fst (run_pending ix w)) = dbPromise ix \<and>
         dbPromise (fst (snd (add ix s v w))) = dbPromise ix \<and>
         dbPromise (fst (snd (update ix s v w))) = dbPromise ix \<and>
         dbPromise (fst (snd (delete ix s k w))) = dbPromise ix \<and>
         dbPromise (fst (snd (clear ix s w))) = dbPromise ix \<and>
         dbPromise (fst (snd (bulkAdd ix s vs w))) = dbPromise ix \<and>
         dbPromise (fst (snd (bulkUpdate ix s vs w))) = dbPromise ix \<and>
         (\<forall>e subs. dbPromise ix = Rejected e \<longrightarrow>
            add (ix\<lparr>subscribers := subs\<rparr>) s v w = (Rejected e, ix\<lparr>subscribers := subs\<rparr>, w) \<and>
            get (ix\<lparr>subscribers := subs\<rparr>) s k w = (Rejected e, w) \<and>
            getAll (ix\<lparr>subscribers := subs\<rparr>) s w = (Rejected e, w) \<and>
            update (ix\<lparr>subscribers := subs\<rparr>) s v w = (Rejected e, ix\<lparr>subscribers := subs\<rparr>, w) \<and>
            delete (ix\<lparr>subscribers := subs\<rparr>) s k w = (Rejected e, ix\<lparr>subscribers := subs\<rparr>, w) \<and>
            clear (ix\<lparr>subscribers := subs\<rparr>) s w = (Rejected e, ix\<lparr>subscribers := subs\<rparr>, w) \<and>
            getByIndex (ix\<lparr>subscribers := subs\<rparr>) s i q w = (Rejected e, w) \<and>
            count (ix\<lparr>subscribers := subs\<rparr>) s w = (Rejected e, w) \<and>
            exists (ix\<lparr>subscribers := subs\<rparr>) s k w = (Rejected e, w) \<and>
            bulkAdd (ix\<lparr>subscribers := subs\<rparr>) s vs w = (Rejected e, ix\<lparr>subscribers := subs\<rparr>, w) \<and>
            bulkUpdate (ix\<lparr>subscribers := subs\<rparr>) s vs w =
              (Rejected e, ix\<lparr>subscribers := subs\<rparr>, w) \<and>
            iterate (ix\<lparr>subscribers := subs\<rparr>) s f w = (Rejected e, w))"
proof -
  have a: "dbPromise ix = fst (init name ver schema w0)"
    using assms by (auto simp: constructor_def split: prod.splits)
  have b: "filter is_open_request (new_events w0 w1) =
             (if 0 < ver then [OpenRequest name ver] else [])"
    using assms by (auto simp: constructor_def split: prod.splits dest: init_opens_once)
  show ?thesis
    using a b by (simp add: failed_instance_rejects writes_keep_connection)
qed

theorem open_once_failure_permanent_witness:
  "dbPromise stale = Rejected (DOMException ''VersionError'') \<and>
   filter is_open_request (new_events newer_world stale_world) = [OpenRequest ''LocalDB'' 1] \<and>
   add stale ''users'' alice stale_world =
     (Rejected (DOMException ''VersionError''), stale, stale_world) \<and>
   getAll stale ''users'' stale_world =
     (Rejected (DOMException ''VersionError''), stale_world)"
proof -
  note t = open_once_failure_permanent [OF stale_constructed, where s = "''users''"
      and v = alice and w = stale_world and k = "KNum 1" and cb = "quiet 0"
      and i = "''email''" and q = "Only (KNum 1)" and vs = "[]" and f = "\<lambda>v k. None"]
  from t have opens:
    "filter is_open_request (new_events newer_world stale_world) = [OpenRequest ''LocalDB'' 1]"
    by simp
  from t stale_rejected
  have "add (stale\<lparr>subscribers := []\<rparr>) ''users'' alice stale_world =
          (Rejected (DOMException ''VersionError''), stale\<lparr>subscribers := []\<rparr>, stale_world) \<and>
        getAll (stale\<lparr>subscribers := []\<rparr>) ''users'' stale_world =
          (Rejected (DOMException ''VersionError''), stale_world)"
    by blast
  with stale_no_subscribers opens stale_rejected show ?thesis
    by simp
qed

text \<open>
  Claim C8. \<open>deleteDatabase\<close> awaits \<open>close\<close>, and \<open>close\<close> awaits the connection
  promise. On an instance whose open failed with \<open>e\<close>, \<open>close\<close> rejects with \<open>e\<close>, so
  \<open>deleteDatabase\<close> rejects with \<open>e\<close> too: it hands the engine no delete request, and
  the databases stay as they were.
\<close>

theorem deleteDatabase_after_failed_open:
  assumes "constructor name ver schema w0 = (ix, w1)" and "dbPromise ix = Rejected e"
  shows "close (ix\<lparr>subscribers := subs\<rparr>) w = (Rejected e, w) \<and>
         deleteDatabase (ix\<lparr>subscribers := subs\<rparr>) w = (Rejected e, w) \<and>
         DeleteDatabaseRequest (dbName ix)
           \<notin> set (new_events w (snd (deleteDatabase (ix\<lparr>subscribers := subs\<rparr>) w))) \<and>
         databases (snd (deleteDatabase (ix\<lparr>subscribers := subs\<rparr>) w)) = databases w"
  using assms(2) by (simp add: failed_instance_rejects)

theorem deleteDatabase_after_failed_open_witness:
  "dbPromise stale = Rejected (DOMException ''VersionError'') \<and>
   deleteDatabase stale stale_world = (Rejected (DOMException ''VersionError''), stale_world) \<and>
   map fst (databases (snd (deleteDatabase stale stale_world))) = [''LocalDB'']"
proof -
  have d: "map fst (databases stale_world) = [''LocalDB'']"
    by (simp add: example_defs engine_defs class_defs)
  show ?thesis
    using deleteDatabase_after_failed_open [OF stale_constructed stale_rejected, of "[]" stale_world]
      stale_no_subscribers d stale_rejected
    by simp
qed

section \<open>The running example, evaluated\<close>

lemma fresh_eq:
  "fresh = \<lparr>dbName = ''LocalDB'', dbVersion = 1, stores = users_schema, dbPromise = Resolved 0,
             subscribers = []\<rparr>"
  by (simp add: fresh_def eval_defs)

lemma fresh_world_eq: "fresh_world = users_world 1 [] [OpenRequest ''LocalDB'' 1]"
  by (simp add: fresh_world_def eval_defs)

lemma add_alice:
  "add fresh ''users'' alice fresh_world =
     (Resolved (KNum 1), fresh,
      users_world 2 [(KNum 1, VObj [(''name'', VStr ''Alice''), (''id'', VNum 1)])]
        [OpenRequest ''LocalDB'' 1, AddRequest ''users'' alice, GetAllRequest ''users''])"
  by (simp add: fresh_eq fresh_world_eq eval_defs)

lemma one_user_eq:
  "one_user =
     users_world 2 [(KNum 1, VObj [(''name'', VStr ''Alice''), (''id'', VNum 1)])]
       [OpenRequest ''LocalDB'' 1, AddRequest ''users'' alice, GetAllRequest ''users'']"
  by (simp add: one_user_def add_alice)

lemma watched_eq: "watched = fresh\<lparr>subscribers := [(''users'', [faulty 1, quiet 2])]\<rparr>"
  by (simp add: watched_def fresh_eq fresh_world_eq eval_defs)


lemma fresh_transaction:
  "transaction fresh ''users'' m (users_world g rs tr) =
     Resolved (''LocalDB'', users_store g rs)"
  by (simp add: fresh_eq eval_defs)

lemma users_world_faults [simp]: "faults (users_world g rs tr) = []"
  by (simp add: users_world_def)

lemma two_users_eq:
  "two_users =
     users_world 3
       [(KNum 1, VObj [(''name'', VStr ''Alice''), (''id'', VNum 1)]),
        (KNum 2, VObj [(''name'', VStr ''Bob''), (''id'', VNum 2)])]
       [OpenRequest ''LocalDB'' 1, AddRequest ''users'' alice, AddRequest ''users'' bob,
        GetAllRequest ''users'']"
  by (simp add: two_users_def fresh_eq fresh_world_eq eval_defs)

section \<open>Writes that succeed\<close>

lemma run_writes_world:
  "run_writes ov ev items (st, ab, w) = (rs, st', ab', w') \<Longrightarrow>
   databases w' = databases w \<and> connections w' = connections w \<and>
   trace w' = trace w @ map ev (fulfilled items)"
proof (induction items arbitrary: st ab w rs st' ab' w')
  case Nil
  then show ?case by simp
next
  case (Cons item items)
  show ?case
  proof (cases item)
    case (Inl e)
    with Cons show ?thesis
      by (auto split: prod.splits)
  next
    case (Inr v)
    with Cons.prems show ?thesis
      by (auto split: prod.splits if_splits option.splits sum.splits
          dest!: Cons.IH dest: issue_fields issue_trace)
  qed
qed

lemma run_writes_no_rejection:
  "run_writes ov ev items (st, ab, w) = (rs, st', ab', w') \<Longrightarrow>
   first_rejection rs = None \<Longrightarrow> ab' = ab"
proof (induction items arbitrary: st ab w rs st' ab' w')
  case Nil
  then show ?case by simp
next
  case (Cons item items)
  show ?case
  proof (cases item)
    case (Inl e)
    with Cons.prems show ?thesis
      by (auto split: prod.splits)
  next
    case (Inr v)
    with Cons.prems show ?thesis
      by (auto split: prod.splits if_splits option.splits sum.splits dest: Cons.IH)
  qed
qed

lemma promise_all_resolved:
  "promise_all issued rs = Resolved ks \<Longrightarrow>
   first_rejection issued = None \<and> first_rejection rs = None \<and> ks = fulfilled rs"
  by (auto simp: promise_all_def split: option.splits)

lemma first_rejection_map_Inr [simp]: "first_rejection (map Inr vs) = None"
  by (induction vs) auto

lemma fulfilled_map_Inr [simp]: "fulfilled (map Inr vs) = vs"
  by (induction vs) auto

lemma issue_all_valid:
  "\<forall>v\<in>set vs. validate_write st v = None \<Longrightarrow> issue_all st vs = map Inr vs"
  by (induction vs) (auto simp: issue_all_def)

lemma run_writes_all:
  "faults w = [] \<Longrightarrow> write_all ov vs st = Some (ks, st') \<Longrightarrow>
   run_writes ov ev (map Inr vs) (st, False, w) =
     (map Inr ks, st', False, w\<lparr>trace := trace w @ map ev vs\<rparr>)"
proof (induction vs arbitrary: st w ks)
  case Nil
  then show ?case by simp
next
  case (Cons v vs)
  from Cons.prems(2) obtain k st1 ks1 where
    sr: "store_record ov v st = Inr (k, st1)" and wa: "write_all ov vs st1 = Some (ks1, st')"
    and ks: "ks = k # ks1"
    by (auto split: sum.splits option.splits)
  have "faults (emit (ev v) w) = []"
    using Cons.prems(1) by simp
  from Cons.IH [OF this wa] sr ks Cons.prems(1) show ?case
    by (simp add: issue_no_fault emit_def)
qed

lemma add_succeeds:
  assumes "transaction ix s ReadWrite w = Resolved (dbn, st)" and "faults w = []"
    and "validate_write st v = None" and "store_record True v st = Inr (k, st')"
  shows "add ix s v w =
           (Resolved k, notify ix s (set_store dbn s st' (emit (AddRequest s v) w)))"
  using assms by (simp add: add_def issue_no_fault)

lemma update_succeeds:
  assumes "transaction ix s ReadWrite w = Resolved (dbn, st)" and "faults w = []"
    and "validate_write st v = None" and "store_record False v st = Inr (k, st')"
  shows "update ix s v w =
           (Resolved k, notify ix s (set_store dbn s st' (emit (PutRequest s v) w)))"
  using assms by (simp add: update_def issue_no_fault)

lemma delete_succeeds:
  assumes "transaction ix s ReadWrite w = Resolved (dbn, st)" and "faults w = []"
  shows "delete ix s key w =
           (Resolved (),
            notify ix s (set_store dbn s
              (st\<lparr>os_records := filter (\<lambda>(k, v). k \<noteq> key) (os_records st)\<rparr>)
              (emit (DeleteRequest s key) w)))"
  using assms by (simp add: delete_def issue_no_fault)

lemma clear_succeeds:
  assumes "transaction ix s ReadWrite w = Resolved (dbn, st)" and "faults w = []"
  shows "clear ix s w =
           (Resolved (),
            notify ix s (set_store dbn s (st\<lparr>os_records := []\<rparr>) (emit (ClearRequest s) w)))"
  using assms by (simp add: clear_def issue_no_fault)

lemma bulkAdd_succeeds:
  assumes "transaction ix s ReadWrite w = Resolved (dbn, st)" and "faults w = []"
    and "\<forall>v\<in>set vs. validate_write st v = None" and "write_all True vs st = Some (ks, st')"
  shows "bulkAdd ix s vs w =
           (Resolved ks,
            notify ix s (set_store dbn s st' (w\<lparr>trace := trace w @ map (AddRequest s) vs\<rparr>)))"
  using assms
  by (simp add: bulkAdd_def issue_all_valid run_writes_all promise_all_def)

lemma bulkUpdate_succeeds:
  assumes "transaction ix s ReadWrite w = Resolved (dbn, st)" and "faults w = []"
    and "\<forall>v\<in>set vs. validate_write st v = None" and "write_all False vs st = Some (ks, st')"
  shows "bulkUpdate ix s vs w =
           (Resolved ks,
            notify ix s (set_store dbn s st' (w\<lparr>trace := trace w @ map (PutRequest s) vs\<rparr>)))"
  using assms
  by (simp add: bulkUpdate_def issue_all_valid run_writes_all promise_all_def)

lemma write_then_notify_reads_once:
  assumes tx: "transaction ix s m w = Resolved (dbn, st)"
    and tr: "trace w1 = trace w @ evs" and "GetAllRequest s \<notin> set evs"
    and same: "databases w1 = databases w" "connections w1 = connections w"
  shows "count_list (new_events w (snd (notify ix s (set_store dbn s st' w1)))) (GetAllRequest s)
           = Suc 0"
proof -
  have "transaction ix s m w1 = Resolved (dbn, st)"
    using tx transaction_cong [OF same, of ix s m m] by simp
  then have "transaction ix s m (set_store dbn s st' w1) = Resolved (dbn, st')"
    by (rule transaction_set_store)
  from notify_reads_once [OF this] obtain rest where
    "trace (snd (notify ix s (set_store dbn s st' w1))) =
       trace (set_store dbn s st' w1) @ GetAllRequest s # rest"
    and "GetAllRequest s \<notin> set rest"
    by blast
  then show ?thesis
    using tr assms(3) by (simp add: new_events_def count_list_0_iff)
qed

lemma bulk_then_notify_reads_once:
  assumes tx: "transaction ix s m w = Resolved (dbn, st)"
    and rw: "run_writes ov ev items (st, False, w) = (rs, st', ab, w1)"
    and pa: "promise_all issued rs = Resolved ks"
    and ev: "\<And>v. ev v \<noteq> GetAllRequest s"
  shows "\<not> ab"
    and "count_list (new_events w (snd (notify ix s (set_store dbn s st' w1)))) (GetAllRequest s)
           = Suc 0"
proof -
  from pa have none: "first_rejection rs = None"
    by (simp add: promise_all_resolved)
  from run_writes_no_rejection [OF rw none] show "\<not> ab"
    by simp
  from run_writes_world [OF rw]
  have same: "databases w1 = databases w" "connections w1 = connections w"
    and tr: "trace w1 = trace w @ map ev (fulfilled items)"
    by simp_all
  have "GetAllRequest s \<notin> set (map ev (fulfilled items))"
    using ev by (metis (no_types) imageE list.set_map)
  from write_then_notify_reads_once [OF tx tr this same]
  show "count_list (new_events w (snd (notify ix s (set_store dbn s st' w1)))) (GetAllRequest s)
          = Suc 0" .
qed

lemma resolved_reads_once:
  "fst (add ix s v w) = Resolved k \<Longrightarrow>
     count_list (new_events w (snd (snd (add ix s v w)))) (GetAllRequest s) = Suc 0"
  "fst (update ix s v w) = Resolved k \<Longrightarrow>
     count_list (new_events w (snd (snd (update ix s v w)))) (GetAllRequest s) = Suc 0"
  "fst (delete ix s key w) = Resolved u \<Longrightarrow>
     count_list (new_events w (snd (snd (delete ix s key w)))) (GetAllRequest s) = Suc 0"
  "fst (clear ix s w) = Resolved u \<Longrightarrow>
     count_list (new_events w (snd (snd (clear ix s w)))) (GetAllRequest s) = Suc 0"
proof -
  show "fst (add ix s v w) = Resolved k \<Longrightarrow>
     count_list (new_events w (snd (snd (add ix s v w)))) (GetAllRequest s) = Suc 0"
    by (auto simp: add_def split: outcome.splits option.splits prod.splits sum.splits
        intro!: write_then_notify_reads_once [where evs = "[AddRequest s v]"]
        dest: issue_trace issue_fields)
  show "fst (update ix s v w) = Resolved k \<Longrightarrow>
     count_list (new_events w (snd (snd (update ix s v w)))) (GetAllRequest s) = Suc 0"
    by (auto simp: update_def split: outcome.splits option.splits prod.splits sum.splits
        intro!: write_then_notify_reads_once [where evs = "[PutRequest s v]"]
        dest: issue_trace issue_fields)
  show "fst (delete ix s key w) = Resolved u \<Longrightarrow>
     count_list (new_events w (snd (snd (delete ix s key w)))) (GetAllRequest s) = Suc 0"
    by (auto simp: delete_def split: outcome.splits option.splits prod.splits
        intro!: write_then_notify_reads_once [where evs = "[DeleteRequest s key]"]
        dest: issue_trace issue_fields)
  show "fst (clear ix s w) = Resolved u \<Longrightarrow>
     count_list (new_events w (snd (snd (clear ix s w)))) (GetAllRequest s) = Suc 0"
    by (auto simp: clear_def split: outcome.splits option.splits prod.splits
        intro!: write_then_notify_reads_once [where evs = "[ClearRequest s]"]
        dest: issue_trace issue_fields)
qed

lemma bulk_resolved_reads_once:
  "fst (bulkAdd ix s vs w) = Resolved ks \<Longrightarrow>
     count_list (new_events w (snd (snd (bulkAdd ix s vs w)))) (GetAllRequest s) = Suc 0"
  "fst (bulkUpdate ix s vs w) = Resolved ks \<Longrightarrow>
     count_list (new_events w (snd (snd (bulkUpdate ix s vs w)))) (GetAllRequest s) = Suc 0"
proof -
  show "fst (bulkAdd ix s vs w) = Resolved ks \<Longrightarrow>
     count_list (new_events w (snd (snd (bulkAdd ix s vs w)))) (GetAllRequest s) = Suc 0"
    by (auto simp: bulkAdd_def Let_def split: outcome.splits prod.splits
        dest: bulk_then_notify_reads_once [where s = s and ix = ix and m = ReadWrite])
  show "fst (bulkUpdate ix s vs w) = Resolved ks \<Longrightarrow>
     count_list (new_events w (snd (snd (bulkUpdate ix s vs w)))) (GetAllRequest s) = Suc 0"
    by (auto simp: bulkUpdate_def Let_def split: outcome.splits prod.splits
        dest: bulk_then_notify_reads_once [where s = s and ix = ix and m = ReadWrite])
qed

lemma outcome_ignores_registry:
  "fst (add (ix\<lparr>subscribers := subs\<rparr>) s v w) = fst (add ix s v w)"
  "fst (update (ix\<lparr>subscribers := subs\<rparr>) s v w) = fst (update ix s v w)"
  "fst (delete (ix\<lparr>subscribers := subs\<rparr>) s key w) = fst (delete ix s key w)"
  "fst (clear (ix\<lparr>subscribers := subs\<rparr>) s w) = fst (clear ix s w)"
  "fst (bulkAdd (ix\<lparr>subscribers := subs\<rparr>) s vs w) = fst (bulkAdd ix s vs w)"
  "fst (bulkUpdate (ix\<lparr>subscribers := subs\<rparr>) s vs w) = fst (bulkUpdate ix s vs w)"
  by (simp_all add: add_def update_def delete_def clear_def bulkAdd_def bulkUpdate_def Let_def
      split: outcome.splits option.splits prod.splits sum.splits)

section \<open>Notification after a write\<close>

text \<open>
  Claim C2, as amended. A mutating operation (\<open>add\<close>, \<open>update\<close>, \<open>delete\<close>, \<open>clear\<close>,
  \<open>bulkAdd\<close>, \<open>bulkUpdate\<close>) succeeds whenever the store handle is obtained, the engine
  reports no fault and accepts the values, with or without listeners: its outcome is the
  same for every registry. Whenever it resolves it has handed the engine exactly one
  \<open>getAll\<close> request on its store, whatever the registry holds for that store: \<open>notify\<close>
  reads the store before it looks at the listeners.
\<close>

theorem notification_always_reads:
  "(transaction ix s ReadWrite w = Resolved (dbn, st) \<and> faults w = [] \<longrightarrow>
      (validate_write st v = None \<and> store_record True v st = Inr (k, st') \<longrightarrow>
         fst (add ix s v w) = Resolved k) \<and>
      (validate_write st v = None \<and> store_record False v st = Inr (k, st') \<longrightarrow>
         fst (update ix s v w) = Resolved k) \<and>
      fst (delete ix s key w) = Resolved () \<and>
      fst (clear ix s w) = Resolved () \<and>
      ((\<forall>v\<in>set vs. validate_write st v = None) \<and> write_all True vs st = Some (ks, st') \<longrightarrow>
         fst (bulkAdd ix s vs w) = Resolved ks) \<and>
      ((\<forall>v\<in>set vs. validate_write st v = None) \<and> write_all False vs st = Some (ks, st') \<longrightarrow>
         fst (bulkUpdate ix s vs w) = Resolved ks)) \<and>
   (fst (add ix s v w) = Resolved k \<longrightarrow>
      count_list (new_events w (snd (snd (add ix s v w)))) (GetAllRequest s) = 1) \<and>
   (fst (update ix s v w) = Resolved k \<longrightarrow>
      count_list (new_events w (snd (snd (update ix s v w)))) (GetAllRequest s) = 1) \<and>
   (fst (delete ix s key w) = Resolved u \<longrightarrow>
      count_list (new_events w (snd (snd (delete ix s key w)))) (GetAllRequest s) = 1) \<and>
   (fst (clear ix s w) = Resolved u \<longrightarrow>
      count_list (new_events w (snd (snd (clear ix s w)))) (GetAllRequest s) = 1) \<and>
   (fst (bulkAdd ix s vs w) = Resolved ks \<longrightarrow>
      count_list (new_events w (snd (snd (bulkAdd ix s vs w)))) (GetAllRequest s) = 1) \<and>
   (fst (bulkUpdate ix s vs w) = Resolved ks \<longrightarrow>
      count_list (new_events w (snd (snd (bulkUpdate ix s vs w)))) (GetAllRequest s) = 1) \<and>
   fst (add (ix\<lparr>subscribers := subs\<rparr>) s v w) = fst (add ix s v w) \<and>
   fst (update (ix\<lparr>subscribers := subs\<rparr>) s v w) = fst (update ix s v w) \<and>
   fst (delete (ix\<lparr>subscribers := subs\<rparr>) s key w) = fst (delete ix s key w) \<and>
   fst (clear (ix\<lparr>subscribers := subs\<rparr>) s w) = fst (clear ix s w) \<and>
   fst (bulkAdd (ix\<lparr>subscribers := subs\<rparr>) s vs w) = fst (bulkAdd ix s vs w) \<and>
   fst (bulkUpdate (ix\<lparr>subscribers := subs\<rparr>) s vs w) = fst (bulkUpdate ix s vs w)"
proof -
  have succeed: "(validate_write st v = None \<and> store_record True v st = Inr (k, st') \<longrightarrow>
         fst (add ix s v w) = Resolved k) \<and>
      (validate_write st v = None \<and> store_record False v st = Inr (k, st') \<longrightarrow>
         fst (update ix s v w) = Resolved k) \<and>
      fst (delete ix s key w) = Resolved () \<and>
      fst (clear ix s w) = Resolved () \<and>
      ((\<forall>v\<in>set vs. validate_write st v = None) \<and> write_all True vs st = Some (ks, st') \<longrightarrow>
         fst (bulkAdd ix s vs w) = Resolved ks) \<and>
      ((\<forall>v\<in>set vs. validate_write st v = None) \<and> write_all False vs st = Some (ks, st') \<longrightarrow>
         fst (bulkUpdate ix s vs w) = Resolved ks)"
    if tx: "transaction ix s ReadWrite w = Resolved (dbn, st)" and nf: "faults w = []"
    using add_succeeds [OF tx nf, of v k st'] update_succeeds [OF tx nf, of v k st']
      delete_succeeds [OF tx nf, of key] clear_succeeds [OF tx nf]
      bulkAdd_succeeds [OF tx nf, of vs ks st'] bulkUpdate_succeeds [OF tx nf, of vs ks st']
    by simp
  have once: "(fst (add ix s v w) = Resolved k \<longrightarrow>
      count_list (new_events w (snd (snd (add ix s v w)))) (GetAllRequest s) = 1) \<and>
   (fst (update ix s v w) = Resolved k \<longrightarrow>
      count_list (new_events w (snd (snd (update ix s v w)))) (GetAllRequest s) = 1) \<and>
   (fst (delete ix s key w) = Resolved u \<longrightarrow>
      count_list (new_events w (snd (snd (delete ix s key w)))) (GetAllRequest s) = 1) \<and>
   (fst (clear ix s w) = Resolved u \<longrightarrow>
      count_list (new_events w (snd (snd (clear ix s w)))) (GetAllRequest s) = 1) \<and>
   (fst (bulkAdd ix s vs w) = Resolved ks \<longrightarrow>
      count_list (new_events w (snd (snd (bulkAdd ix s vs w)))) (GetAllRequest s) = 1) \<and>
   (fst (bulkUpdate ix s vs w) = Resolved ks \<longrightarrow>
      count_list (new_events w (snd (snd (bulkUpdate ix s vs w)))) (GetAllRequest s) = 1)"
    using resolved_reads_once [of ix s] bulk_resolved_reads_once [of ix s]
    by simp
  from succeed once show ?thesis
    unfolding outcome_ignores_registry by blast
qed

lemma store_alice:
  "validate_write (users_store 1 []) alice = None"
  "store_record ov alice (users_store 1 []) =
     Inr (KNum 1, users_store 2 [(KNum 1, VObj [(''name'', VStr ''Alice''), (''id'', VNum 1)])])"
  by (simp_all add: eval_defs)

lemma store_bob:
  "validate_write (users_store g rs) bob = None"
  "store_record ov bob (users_store 2 [(KNum 1, VObj [(''name'', VStr ''Alice''), (''id'', VNum 1)])]) =
     Inr (KNum 2, users_store 3
       [(KNum 1, VObj [(''name'', VStr ''Alice''), (''id'', VNum 1)]),
        (KNum 2, VObj [(''name'', VStr ''Bob''), (''id'', VNum 2)])])"
  by (simp_all add: eval_defs)

lemma write_alice_bob:
  "write_all ov [alice, bob] (users_store 1 []) =
     Some ([KNum 1, KNum 2], users_store 3
       [(KNum 1, VObj [(''name'', VStr ''Alice''), (''id'', VNum 1)]),
        (KNum 2, VObj [(''name'', VStr ''Bob''), (''id'', VNum 2)])])"
  by (simp add: store_alice store_bob)

theorem notification_always_reads_witness:
  "listeners fresh ''users'' = [] \<and>
   fst (add fresh ''users'' alice fresh_world) = Resolved (KNum 1) \<and>
   count_list (new_events fresh_world (snd (snd (add fresh ''users'' alice fresh_world))))
     (GetAllRequest ''users'') = 1 \<and>
   fst (update fresh ''users'' alice fresh_world) = Resolved (KNum 1) \<and>
   fst (delete fresh ''users'' (KNum 1) fresh_world) = Resolved () \<and>
   fst (clear fresh ''users'' fresh_world) = Resolved () \<and>
   count_list (new_events fresh_world (snd (snd (clear fresh ''users'' fresh_world))))
     (GetAllRequest ''users'') = 1 \<and>
   fst (bulkAdd fresh ''users'' [alice, bob] fresh_world) = Resolved [KNum 1, KNum 2] \<and>
   fst (bulkUpdate fresh ''users'' [alice, bob] fresh_world) = Resolved [KNum 1, KNum 2] \<and>
   count_list (new_events fresh_world (snd (snd (bulkUpdate fresh ''users'' [alice, bob] fresh_world))))
     (GetAllRequest ''users'') = 1 \<and>
   fst (clear watched ''users'' fresh_world) = Resolved ()"
proof -
  have l: "listeners fresh ''users'' = []"
    by (simp add: fresh_eq lookup_def object_prototype_members_def listeners_def)
  have tx: "transaction fresh ''users'' ReadWrite fresh_world =
              Resolved (''LocalDB'', users_store 1 [])"
    by (simp add: fresh_world_eq fresh_transaction)
  have nf: "faults fresh_world = []"
    by (simp add: fresh_world_eq)
  have va: "\<forall>v\<in>set [alice, bob]. validate_write (users_store 1 []) v = None"
    by (simp add: store_alice store_bob)
  note t = notification_always_reads [where ix = fresh and s = "''users''" and w = fresh_world
      and dbn = "''LocalDB''" and st = "users_store 1 []" and v = alice and k = "KNum 1"
      and st' = "users_store 2 [(KNum 1, VObj [(''name'', VStr ''Alice''), (''id'', VNum 1)])]"
      and key = "KNum 1" and vs = "[alice, bob]" and ks = "[KNum 1, KNum 2]"
      and subs = "subscribers watched"]
  from t tx nf store_alice(1) store_alice(2) [of True] store_alice(2) [of False]
  have a: "fst (add fresh ''users'' alice fresh_world) = Resolved (KNum 1) \<and>
           fst (update fresh ''users'' alice fresh_world) = Resolved (KNum 1) \<and>
           fst (delete fresh ''users'' (KNum 1) fresh_world) = Resolved () \<and>
           fst (clear fresh ''users'' fresh_world) = Resolved ()"
    by blast
  have "fresh\<lparr>subscribers := subscribers watched\<rparr> = watched"
    by (simp add: watched_eq)
  with t a have w: "fst (clear watched ''users'' fresh_world) = Resolved ()"
    by simp
  note t2 = notification_always_reads [where ix = fresh and s = "''users''" and w = fresh_world
      and dbn = "''LocalDB''" and st = "users_store 1 []" and v = alice and k = "KNum 1"
      and st' = "users_store 3
       [(KNum 1, VObj [(''name'', VStr ''Alice''), (''id'', VNum 1)]),
        (KNum 2, VObj [(''name'', VStr ''Bob''), (''id'', VNum 2)])]"
      and key = "KNum 1" and vs = "[alice, bob]" and ks = "[KNum 1, KNum 2]" and subs = "[]"]
  from t2 tx nf va write_alice_bob [of True] write_alice_bob [of False]
  have b: "fst (bulkAdd fresh ''users'' [alice, bob] fresh_world) = Resolved [KNum 1, KNum 2] \<and>
           fst (bulkUpdate fresh ''users'' [alice, bob] fresh_world) = Resolved [KNum 1, KNum 2]"
    by blast
  from t a have c: "count_list (new_events fresh_world (snd (snd (add fresh ''users'' alice fresh_world))))
     (GetAllRequest ''users'') = 1 \<and>
     count_list (new_events fresh_world (snd (snd (clear fresh ''users'' fresh_world))))
     (GetAllRequest ''users'') = 1"
    by blast
  from t2 b have d: "count_list (new_events fresh_world (snd (snd (bulkUpdate fresh ''users'' [alice, bob] fresh_world))))
     (GetAllRequest ''users'') = 1"
    by blast
  from l a b c d w show ?thesis
    by blast
qed

text \<open>
  Claim C2 as stated fails: on an instance with no listener at all, \<open>add\<close> resolves and
  the \<open>getAll\<close> request of the notification is issued all the same.
\<close>

theorem no_listener_still_reads_counterexample:
  "listeners fresh ''users'' = [] \<and>
   fst (add fresh ''users'' alice fresh_world) = Resolved (KNum 1) \<and>
   new_events fresh_world (snd (snd (add fresh ''users'' alice fresh_world))) =
     [AddRequest ''users'' alice, GetAllRequest ''users'']"
  by (simp add: add_alice) (simp add: fresh_eq fresh_world_eq eval_defs)

text \<open>
  Claim C3, as amended. One notification cycle hands the snapshot to the listeners in
  registration order and ends at the first listener that throws: the listeners up to and
  including that one are invoked, those after it are not, and the exception becomes an
  unhandled rejection of \<open>notify\<close>. When no listener throws, all of them are invoked.
  This is the cycle of listeners that leave the registry and the snapshot alone while they
  run (those the cycle reaches are inert). For a store name that is a member of
  \<open>Object.prototype\<close> and has no listener array, the cycle is the \<open>TypeError\<close> of calling
  \<open>forEach\<close>, unhandled. Whatever the listeners do, the cycle adds to the trace only
  deliveries and unhandled rejections, and the outcome of the mutating operation that
  triggered it does not depend on the registry at all, so a listener's exception never
  reaches the caller.
\<close>

theorem listener_fault_ends_cycle:
  assumes "getAll ix s w = (Resolved data, w1)"
  shows "(lookup (subscribers ix) s = Array arr \<and>
          (\<forall>cb\<in>set (reached arr data). inert cb data) \<longrightarrow>
            notify ix s w =
              (ix, w1\<lparr>trace := trace w1 @
                   map (\<lambda>cb. Delivered (sid cb) data) (reached arr data) @
                   (case first_throw arr data of
                      None \<Rightarrow> [] | Some e \<Rightarrow> [UnhandledRejection e])\<rparr>)) \<and>
         (lookup (subscribers ix) s = Undefined \<longrightarrow> notify ix s w = (ix, w1)) \<and>
         (lookup (subscribers ix) s = Inherited \<longrightarrow>
            notify ix s w = (ix, emit (UnhandledRejection TypeError) w1)) \<and>
         ((\<forall>cb\<in>set arr. thrown (call cb data) = None) \<longrightarrow>
            reached arr data = arr \<and> first_throw arr data = None) \<and>
         (\<forall>k e. k < length arr \<and> thrown (call (arr ! k) data) = Some e \<and>
                (\<forall>j<k. thrown (call (arr ! j) data) = None) \<longrightarrow>
            reached arr data = take (Suc k) arr \<and> first_throw arr data = Some e) \<and>
         (\<exists>evs. trace (snd (notify ix s w)) = trace w1 @ evs \<and> list_all is_cycle_event evs) \<and>
         fst (add (ix\<lparr>subscribers := subs\<rparr>) s v w) = fst (add ix s v w) \<and>
         fst (update (ix\<lparr>subscribers := subs\<rparr>) s v w) = fst (update ix s v w) \<and>
         fst (delete (ix\<lparr>subscribers := subs\<rparr>) s key w) = fst (delete ix s key w) \<and>
         fst (clear (ix\<lparr>subscribers := subs\<rparr>) s w) = fst (clear ix s w) \<and>
         fst (bulkAdd (ix\<lparr>subscribers := subs\<rparr>) s vs w) = fst (bulkAdd ix s vs w) \<and>
         fst (bulkUpdate (ix\<lparr>subscribers := subs\<rparr>) s vs w) = fst (bulkUpdate ix s vs w)"
proof -
  have a: "lookup (subscribers ix) s = Array arr \<and>
          (\<forall>cb\<in>set (reached arr data). inert cb data) \<longrightarrow>
            notify ix s w =
              (ix, w1\<lparr>trace := trace w1 @
                   map (\<lambda>cb. Delivered (sid cb) data) (reached arr data) @
                   (case first_throw arr data of
                      None \<Rightarrow> [] | Some e \<Rightarrow> [UnhandledRejection e])\<rparr>)"
    using notify_inert [OF assms, of arr] by (simp add: cycle_def)
  have b: "(lookup (subscribers ix) s = Undefined \<longrightarrow> notify ix s w = (ix, w1)) \<and>
         (lookup (subscribers ix) s = Inherited \<longrightarrow>
            notify ix s w = (ix, emit (UnhandledRejection TypeError) w1))"
    using notify_undefined [OF assms] notify_inherited [OF assms] by simp
  have c: "(\<forall>cb\<in>set arr. thrown (call cb data) = None) \<longrightarrow>
             reached arr data = arr \<and> first_throw arr data = None"
    using reached_all by blast
  have d: "\<forall>k e. k < length arr \<and> thrown (call (arr ! k) data) = Some e \<and>
                (\<forall>j<k. thrown (call (arr ! j) data) = None) \<longrightarrow>
             reached arr data = take (Suc k) arr \<and> first_throw arr data = Some e"
    using reached_first by blast
  note e = notify_shape(3) [OF assms]
  from a b c d e show ?thesis
    unfolding outcome_ignores_registry by blast
qed

lemma watched_read:
  "getAll watched ''users'' one_user =
     (Resolved [VObj [(''name'', VStr ''Alice''), (''id'', VNum 1)]],
      emit (GetAllRequest ''users'') one_user)"
  by (simp add: watched_eq fresh_eq one_user_eq eval_defs)

lemma watched_lookup: "lookup (subscribers watched) ''users'' = Array [faulty 1, quiet 2]"
  by (simp add: watched_eq lookup_def)

theorem listener_fault_ends_cycle_witness:
  "getAll watched ''users'' one_user =
     (Resolved [VObj [(''name'', VStr ''Alice''), (''id'', VNum 1)]],
      emit (GetAllRequest ''users'') one_user) \<and>
   listeners watched ''users'' = [faulty 1, quiet 2] \<and>
   notify watched ''users'' one_user =
     (watched,
      one_user\<lparr>trace := trace one_user @
        [GetAllRequest ''users'',
         Delivered 1 [VObj [(''name'', VStr ''Alice''), (''id'', VNum 1)]],
         UnhandledRejection (Error ''listener failed'')]\<rparr>) \<and>
   fst (add watched ''users'' bob one_user) = fst (add fresh ''users'' bob one_user)"
proof -
  let ?data = "[VObj [(''name'', VStr ''Alice''), (''id'', VNum 1)]]"
  have l: "listeners watched ''users'' = [faulty 1, quiet 2]"
    by (simp add: watched_lookup listeners_def)
  have w: "watched\<lparr>subscribers := []\<rparr> = fresh"
    by (simp add: watched_eq fresh_eq)
  note t = listener_fault_ends_cycle [OF watched_read, where subs = "[]" and v = bob
      and key = "KNum 1" and vs = "[]" and arr = "[faulty 1, quiet 2]"]
  from t have "\<forall>k e. k < length [faulty 1, quiet 2] \<and>
      thrown (call ([faulty 1, quiet 2] ! k) ?data) = Some e \<and>
      (\<forall>j<k. thrown (call ([faulty 1, quiet 2] ! j) ?data) = None) \<longrightarrow>
      reached [faulty 1, quiet 2] ?data = take (Suc k) [faulty 1, quiet 2] \<and>
      first_throw [faulty 1, quiet 2] ?data = Some e"
    by blast
  from this [rule_format, of 0 "Error ''listener failed''"]
  have r: "reached [faulty 1, quiet 2] ?data = [faulty 1] \<and>
      first_throw [faulty 1, quiet 2] ?data = Some (Error ''listener failed'')"
    by (simp add: faulty_def)
  then have i: "\<forall>cb\<in>set (reached [faulty 1, quiet 2] ?data). inert cb ?data"
    by (simp add: inert_def faulty_def)
  from t watched_lookup i
  have "notify watched ''users'' one_user =
              (watched, (emit (GetAllRequest ''users'') one_user)
                 \<lparr>trace := trace (emit (GetAllRequest ''users'') one_user) @
                   map (\<lambda>cb. Delivered (sid cb) ?data) (reached [faulty 1, quiet 2] ?data) @
                   (case first_throw [faulty 1, quiet 2] ?data of
                      None \<Rightarrow> [] | Some e \<Rightarrow> [UnhandledRejection e])\<rparr>)"
    by blast
  with r have n: "notify watched ''users'' one_user =
     (watched,
      one_user\<lparr>trace := trace one_user @
        [GetAllRequest ''users'',
         Delivered 1 [VObj [(''name'', VStr ''Alice''), (''id'', VNum 1)]],
         UnhandledRejection (Error ''listener failed'')]\<rparr>)"
    by (simp add: faulty_def emit_def)
  from t have "fst (add (watched\<lparr>subscribers := []\<rparr>) ''users'' bob one_user) =
      fst (add watched ''users'' bob one_user)"
    by blast
  with n l w watched_read show ?thesis
    by simp
qed

text \<open>
  Claim C3 as stated fails: with a listener that throws registered before one that does
  not, an \<open>add\<close> delivers the snapshot to the first only.
\<close>

theorem listener_fault_counterexample:
  "listeners watched ''users'' = [faulty 1, quiet 2] \<and>
   thrown (call (faulty 1) [VObj [(''name'', VStr ''Alice''), (''id'', VNum 1)]]) =
     Some (Error ''listener failed'') \<and>
   fst (add watched ''users'' alice fresh_world) = Resolved (KNum 1) \<and>
   new_events fresh_world (snd (snd (add watched ''users'' alice fresh_world))) =
     [AddRequest ''users'' alice, GetAllRequest ''users'',
      Delivered 1 [VObj [(''name'', VStr ''Alice''), (''id'', VNum 1)]],
      UnhandledRejection (Error ''listener failed'')] \<and>
   Delivered 2 [VObj [(''name'', VStr ''Alice''), (''id'', VNum 1)]]
     \<notin> set (new_events fresh_world (snd (snd (add watched ''users'' alice fresh_world))))"
proof -
  have "add watched ''users'' alice fresh_world =
     (Resolved (KNum 1), watched,
      users_world 2 [(KNum 1, VObj [(''name'', VStr ''Alice''), (''id'', VNum 1)])]
        [OpenRequest ''LocalDB'' 1, AddRequest ''users'' alice, GetAllRequest ''users'',
         Delivered 1 [VObj [(''name'', VStr ''Alice''), (''id'', VNum 1)]],
         UnhandledRejection (Error ''listener failed'')])"
    by (simp add: watched_eq fresh_eq fresh_world_eq eval_defs)
  then show ?thesis
    by (simp add: watched_lookup listeners_def faulty_def fresh_world_eq users_world_def
        new_events_def)
qed

text \<open>
  Why the listeners of the amended claim have to leave the registry alone: a listener
  that unsubscribes itself while it runs moves the next listener into its own place, and
  \<open>forEach\<close> goes on with the place after it. With such a listener registered before
  one that returns normally, an \<open>add\<close> delivers the snapshot to the first only, though
  nothing is thrown; afterwards the second is the only listener left.
\<close>

lemma unsubscribe_during_cycle:
  "listeners left_alone ''users'' = [leaver 3, quiet 2] \<and>
   fst (add left_alone ''users'' alice fresh_world) = Resolved (KNum 1) \<and>
   new_events fresh_world (snd (snd (add left_alone ''users'' alice fresh_world))) =
     [AddRequest ''users'' alice, GetAllRequest ''users'',
      Delivered 3 [VObj [(''name'', VStr ''Alice''), (''id'', VNum 1)]]] \<and>
   listeners (fst (snd (add left_alone ''users'' alice fresh_world))) ''users'' = [quiet 2]"
proof -
  have "add left_alone ''users'' alice fresh_world =
     (Resolved (KNum 1), fresh\<lparr>subscribers := [(''users'', [quiet 2])]\<rparr>,
      users_world 2 [(KNum 1, VObj [(''name'', VStr ''Alice''), (''id'', VNum 1)])]
        [OpenRequest ''LocalDB'' 1, AddRequest ''users'' alice, GetAllRequest ''users'',
         Delivered 3 [VObj [(''name'', VStr ''Alice''), (''id'', VNum 1)]]])"
    by (simp add: left_alone_def fresh_eq fresh_world_eq eval_defs)
  then show ?thesis
    by (simp add: left_alone_def lookup_def listeners_def fresh_world_eq users_world_def
        new_events_def)
qed

text \<open>
  The other two ways in which a listener reaches into the cycle. A listener that
  subscribes a callback while it runs extends the array, but \<open>forEach\<close> took the length
  before: the new callback is not called in this cycle, and its initial read waits in the
  queue until the operation is over. A listener that changes the array it was handed
  changes what the listeners after it receive.
\<close>

lemma subscribe_during_cycle:
  "new_events fresh_world
     (snd (snd (add (fresh\<lparr>subscribers := [(''users'', [recruiter 4 (quiet 2)])]\<rparr>)
                  ''users'' alice fresh_world))) =
     [AddRequest ''users'' alice, GetAllRequest ''users'',
      Delivered 4 [VObj [(''name'', VStr ''Alice''), (''id'', VNum 1)]]] \<and>
   listeners
     (fst (snd (add (fresh\<lparr>subscribers := [(''users'', [recruiter 4 (quiet 2)])]\<rparr>)
                  ''users'' alice fresh_world))) ''users'' = [recruiter 4 (quiet 2), quiet 2] \<and>
   pending
     (snd (snd (add (fresh\<lparr>subscribers := [(''users'', [recruiter 4 (quiet 2)])]\<rparr>)
                  ''users'' alice fresh_world))) = [(''users'', quiet 2)] \<and>
   new_events one_user
     (snd (run_pending fresh (one_user\<lparr>pending := [(''users'', quiet 2)]\<rparr>))) =
     [GetAllRequest ''users'', Delivered 2 [VObj [(''name'', VStr ''Alice''), (''id'', VNum 1)]]]"
  by (simp add: fresh_eq fresh_world_eq one_user_eq eval_defs)

lemma snapshot_changed_during_cycle:
  "new_events fresh_world
     (snd (snd (add (fresh\<lparr>subscribers := [(''users'', [scribbler 5, quiet 2])]\<rparr>)
                  ''users'' alice fresh_world))) =
     [AddRequest ''users'' alice, GetAllRequest ''users'',
      Delivered 5 [VObj [(''name'', VStr ''Alice''), (''id'', VNum 1)]],
      Delivered 2 []]"
  by (simp add: fresh_eq fresh_world_eq eval_defs)

text \<open>
  A store named like a member of \<open>Object.prototype\<close> can be written and read, but not
  listened to: \<open>subscribe\<close> and \<open>unsubscribe\<close> throw, and the notification after a
  write ends in an unhandled \<open>TypeError\<close>.
\<close>

lemma inherited_member_as_store:
  "lookup (subscribers odd) ''toString'' = Inherited \<and>
   subscribe odd ''toString'' (quiet 2) odd_world = (Some TypeError, odd, odd_world) \<and>
   unsubscribe odd ''toString'' (quiet 2) = (Some TypeError, odd) \<and>
   fst (add odd ''toString'' alice odd_world) = Resolved (KNum 1) \<and>
   new_events odd_world (snd (snd (add odd ''toString'' alice odd_world))) =
     [AddRequest ''toString'' alice, GetAllRequest ''toString'', UnhandledRejection TypeError]"
  by (simp add: eval_defs)

section \<open>Errors of the engine\<close>

lemma issue_eq:
  "issue ev w = (fault_at 0 w, (emit ev w)\<lparr>faults := tl (faults w)\<rparr>)"
proof (cases "faults w")
  case Nil
  then have "w\<lparr>faults := []\<rparr> = w"
    by (cases w) simp
  with Nil show ?thesis
    by (simp add: issue_def fault_at_def emit_def)
next
  case (Cons f fs)
  then show ?thesis
    by (simp add: issue_def fault_at_def emit_def)
qed

lemma fault_at_tl [simp]: "fault_at n (w\<lparr>faults := tl (faults w)\<rparr>) = fault_at (Suc n) w"
  by (cases "faults w") (simp_all add: fault_at_def)

lemma fault_at_emit [simp]: "fault_at n (emit ev w) = fault_at n w"
  by (simp add: fault_at_def)

lemma no_fault_before_0 [simp]: "no_fault_before 0 w"
  by (simp add: no_fault_before_def)

lemma no_fault_before_Suc:
  "no_fault_before (Suc n) w =
     (fault_at 0 w = None \<and> no_fault_before n (w\<lparr>faults := tl (faults w)\<rparr>))"
  by (cases "faults w") (auto simp: no_fault_before_def fault_at_def)

lemma no_fault_before_emit [simp]: "no_fault_before n (emit ev w) = no_fault_before n w"
  by (simp add: no_fault_before_def)

lemma no_faults_at_all [simp]:
  "faults w = [] \<Longrightarrow> no_fault_before n w" "faults w = [] \<Longrightarrow> fault_at n w = None"
  by (simp_all add: no_fault_before_def fault_at_def)

lemma fault_at_member: "fault_at n w = Some e \<Longrightarrow> Some e \<in> set (faults w)"
  by (metis fault_at_def nth_mem option.distinct(1))

lemma in_set_tlD: "x \<in> set (tl xs) \<Longrightarrow> x \<in> set xs"
  by (cases xs) auto

lemma validate_write_error: "validate_write st v = Some e \<Longrightarrow> e = DOMException ''DataError''"
  by (auto simp: validate_write_def split: extraction.splits if_splits)

lemma store_record_error:
  "store_record ov v st = Inl e \<Longrightarrow> e = DOMException ''ConstraintError''"
  by (auto simp: store_record_def Let_def split: extraction.splits if_splits)

lemma transaction_error:
  "transaction ix s m w = Rejected e \<Longrightarrow>
   dbPromise ix = Rejected e \<or> e = DOMException ''NotFoundError'' \<or>
   e = DOMException ''InvalidStateError''"
  by (auto simp: transaction_def split: outcome.splits if_splits option.splits)

lemma transaction_engine_error: "transaction ix s m w = Rejected e \<Longrightarrow> engine_error ix w e"
  using transaction_error [of ix s m w e] by (auto simp: engine_error_def)

lemma issue_engine_error: "issue ev w = (Some e, w1) \<Longrightarrow> engine_error ix w e"
  by (auto simp: issue_eq engine_error_def dest: fault_at_member)

lemma validate_engine_error: "validate_write st v = Some e \<Longrightarrow> engine_error ix w e"
  by (auto simp: engine_error_def dest: validate_write_error)

lemma store_engine_error: "store_record ov v st = Inl e \<Longrightarrow> engine_error ix w e"
  by (auto simp: engine_error_def dest: store_record_error)

lemma cursor_steps_error:
  "fst (cursor_steps s cb rs w) = Rejected e \<Longrightarrow> Some e \<in> set (faults w)"
proof (induction rs arbitrary: w)
  case Nil
  then show ?case by simp
next
  case (Cons r rs)
  obtain k v where r: "r = (k, v)"
    by (cases r)
  show ?case
  proof (cases "cb v k")
    case (Some a)
    with Cons.prems r show ?thesis by simp
  next
    case None
    show ?thesis
    proof (cases "fault_at 0 w")
      case (Some a)
      with Cons.prems r None show ?thesis
        by (auto simp: issue_eq dest: fault_at_member)
    next
      case nf: None
      with Cons.prems r None
      have "fst (cursor_steps s cb rs
                   ((emit (ContinueRequest s) (emit (Visited v k) w))\<lparr>faults := tl (faults w)\<rparr>)) =
              Rejected e"
        by (simp add: issue_eq)
      from Cons.IH [OF this] show ?thesis
        by (auto dest: in_set_tlD)
    qed
  qed
qed

lemma run_writes_error:
  "run_writes ov ev (map Inr vs) (st, False, w) = (rs, s') \<Longrightarrow> first_rejection rs = Some e \<Longrightarrow>
   Some e \<in> set (faults w) \<or> e = DOMException ''ConstraintError''"
proof (induction vs arbitrary: st w rs s')
  case Nil
  then show ?case by simp
next
  case (Cons v vs)
  show ?case
  proof (cases "fault_at 0 w")
    case (Some a)
    with Cons.prems show ?thesis
      by (auto simp: issue_eq split: prod.splits dest: fault_at_member)
  next
    case None
    let ?w1 = "(emit (ev v) w)\<lparr>faults := tl (faults w)\<rparr>"
    show ?thesis
    proof (cases "store_record ov v st")
      case (Inl a)
      with Cons.prems None show ?thesis
        by (auto simp: issue_eq split: prod.splits dest: store_record_error)
    next
      case (Inr p)
      obtain k st1 where p: "p = (k, st1)"
        by (cases p)
      obtain rs1 s1 where rw: "run_writes ov ev (map Inr vs) (st1, False, ?w1) = (rs1, s1)"
        by (cases "run_writes ov ev (map Inr vs) (st1, False, ?w1)")
      with Cons.prems None Inr p have "first_rejection rs1 = Some e"
        by (auto simp: issue_eq)
      from Cons.IH [OF rw this] show ?thesis
        by (auto dest: in_set_tlD)
    qed
  qed
qed

lemma first_rejection_issue_all:
  "first_rejection (issue_all st vs) = Some e \<Longrightarrow> e = DOMException ''DataError''"
  by (induction vs) (auto simp: issue_all_def split: option.splits dest: validate_write_error)

lemma issue_all_none:
  "first_rejection (issue_all st vs) = None \<Longrightarrow> issue_all st vs = map Inr vs"
  by (induction vs) (auto simp: issue_all_def split: option.splits)

lemma bulk_error:
  assumes "promise_all (issue_all st vs)
             (fst (run_writes ov ev (issue_all st vs) (st, False, w))) = Rejected e"
  shows "Some e \<in> set (faults w) \<or> e = DOMException ''ConstraintError'' \<or>
         e = DOMException ''DataError''"
proof (cases "first_rejection (issue_all st vs)")
  case (Some a)
  with assms first_rejection_issue_all [of st vs a] show ?thesis
    by (simp add: promise_all_def)
next
  case None
  then have ia: "issue_all st vs = map Inr vs"
    by (rule issue_all_none)
  obtain rs s' where rw: "run_writes ov ev (map Inr vs) (st, False, w) = (rs, s')"
    by (cases "run_writes ov ev (map Inr vs) (st, False, w)")
  with assms None ia have "first_rejection rs = Some e"
    by (auto simp: promise_all_def split: option.splits)
  from run_writes_error [OF rw this] show ?thesis
    by blast
qed

lemma rejection_is_engine_error:
  "fst (add ix s v w) = Rejected e \<Longrightarrow> engine_error ix w e"
  "fst (update ix s v w) = Rejected e \<Longrightarrow> engine_error ix w e"
  "fst (delete ix s k w) = Rejected e \<Longrightarrow> engine_error ix w e"
  "fst (clear ix s w) = Rejected e \<Longrightarrow> engine_error ix w e"
  "fst (get ix s k w) = Rejected e \<Longrightarrow> engine_error ix w e"
  "fst (getAll ix s w) = Rejected e \<Longrightarrow> engine_error ix w e"
  "fst (count ix s w) = Rejected e \<Longrightarrow> engine_error ix w e"
  "fst (exists ix s k w) = Rejected e \<Longrightarrow> engine_error ix w e"
proof -
  show "fst (add ix s v w) = Rejected e \<Longrightarrow> engine_error ix w e"
    by (auto simp: add_def split: outcome.splits option.splits prod.splits sum.splits
        dest: transaction_engine_error issue_engine_error validate_engine_error
          store_engine_error)
  show "fst (update ix s v w) = Rejected e \<Longrightarrow> engine_error ix w e"
    by (auto simp: update_def split: outcome.splits option.splits prod.splits sum.splits
        dest: transaction_engine_error issue_engine_error validate_engine_error
          store_engine_error)
  show "fst (delete ix s k w) = Rejected e \<Longrightarrow> engine_error ix w e"
    by (auto simp: delete_def split: outcome.splits option.splits prod.splits
        dest: transaction_engine_error issue_engine_error)
  show "fst (clear ix s w) = Rejected e \<Longrightarrow> engine_error ix w e"
    by (auto simp: clear_def split: outcome.splits option.splits prod.splits
        dest: transaction_engine_error issue_engine_error)
  show "fst (get ix s k w) = Rejected e \<Longrightarrow> engine_error ix w e"
    by (auto simp: get_def split: outcome.splits option.splits prod.splits
        dest: transaction_engine_error issue_engine_error)
  show "fst (getAll ix s w) = Rejected e \<Longrightarrow> engine_error ix w e"
    by (auto simp: getAll_def split: outcome.splits option.splits prod.splits
        dest: transaction_engine_error issue_engine_error)
  show "fst (count ix s w) = Rejected e \<Longrightarrow> engine_error ix w e"
    by (auto simp: count_def split: outcome.splits option.splits prod.splits
        dest: transaction_engine_error issue_engine_error)
  show "fst (exists ix s k w) = Rejected e \<Longrightarrow> engine_error ix w e"
    by (auto simp: exists_def split: outcome.splits option.splits prod.splits
        dest: transaction_engine_error issue_engine_error)
qed

lemma rejection_is_engine_error_more:
  "fst (getByIndex ix s i q w) = Rejected e \<Longrightarrow> engine_error ix w e"
  "fst (iterate ix s cb w) = Rejected e \<Longrightarrow> engine_error ix w e"
  "fst (bulkAdd ix s vs w) = Rejected e \<Longrightarrow> engine_error ix w e"
  "fst (bulkUpdate ix s vs w) = Rejected e \<Longrightarrow> engine_error ix w e"
proof -
  show "fst (getByIndex ix s i q w) = Rejected e \<Longrightarrow> engine_error ix w e"
    by (auto simp: getByIndex_def split: outcome.splits option.splits prod.splits
        dest: transaction_engine_error issue_engine_error)
      (simp add: engine_error_def)
  show "fst (iterate ix s cb w) = Rejected e \<Longrightarrow> engine_error ix w e"
  proof -
    assume a: "fst (iterate ix s cb w) = Rejected e"
    show ?thesis
    proof (cases "transaction ix s ReadOnly w")
      case (Resolved p)
      obtain dbn st where p: "p = (dbn, st)"
        by (cases p)
      show ?thesis
      proof (cases "fault_at 0 w")
        case (Some a')
        with a Resolved p show ?thesis
          by (auto simp: iterate_def issue_eq engine_error_def dest: fault_at_member)
      next
        case None
        with a Resolved p
        have "fst (cursor_steps s cb (os_records st)
                     ((emit (OpenCursorRequest s) w)\<lparr>faults := tl (faults w)\<rparr>)) = Rejected e"
          by (simp add: iterate_def issue_eq)
        from cursor_steps_error [OF this] show ?thesis
          by (auto simp: engine_error_def dest: in_set_tlD)
      qed
    next
      case (Rejected e')
      with a show ?thesis
        by (auto simp: iterate_def dest: transaction_engine_error)
    next
      case Pending
      with a show ?thesis
        by (simp add: iterate_def)
    qed
  qed
  show "fst (bulkAdd ix s vs w) = Rejected e \<Longrightarrow> engine_error ix w e"
  proof -
    assume a: "fst (bulkAdd ix s vs w) = Rejected e"
    show ?thesis
    proof (cases "transaction ix s ReadWrite w")
      case (Resolved p)
      obtain dbn st where p: "p = (dbn, st)"
        by (cases p)
      from a Resolved p
      have "promise_all (issue_all st vs)
             (fst (run_writes True (AddRequest s) (issue_all st vs) (st, False, w))) = Rejected e"
        by (auto simp: bulkAdd_def Let_def split: prod.splits outcome.splits)
      from bulk_error [OF this] show ?thesis
        by (auto simp: engine_error_def)
    next
      case (Rejected e')
      with a show ?thesis
        by (auto simp: bulkAdd_def dest: transaction_engine_error)
    next
      case Pending
      with a show ?thesis
        by (simp add: bulkAdd_def)
    qed
  qed
  show "fst (bulkUpdate ix s vs w) = Rejected e \<Longrightarrow> engine_error ix w e"
  proof -
    assume a: "fst (bulkUpdate ix s vs w) = Rejected e"
    show ?thesis
    proof (cases "transaction ix s ReadWrite w")
      case (Resolved p)
      obtain dbn st where p: "p = (dbn, st)"
        by (cases p)
      from a Resolved p
      have "promise_all (issue_all st vs)
             (fst (run_writes False (PutRequest s) (issue_all st vs) (st, False, w))) = Rejected e"
        by (auto simp: bulkUpdate_def Let_def split: prod.splits outcome.splits)
      from bulk_error [OF this] show ?thesis
        by (auto simp: engine_error_def)
    next
      case (Rejected e')
      with a show ?thesis
        by (auto simp: bulkUpdate_def dest: transaction_engine_error)
    next
      case Pending
      with a show ?thesis
        by (simp add: bulkUpdate_def)
    qed
  qed
qed

lemma cursor_events_simps [simp]:
  "cursor_events s [] = []"
  "cursor_events s ((k, v) # rs) = Visited v k # ContinueRequest s # cursor_events s rs"
  by (simp_all add: cursor_events_def)

lemma fault_at_trace [simp]: "fault_at n (w\<lparr>trace := tr\<rparr>) = fault_at n w"
  by (simp add: fault_at_def)

lemma no_fault_before_trace [simp]:
  "no_fault_before n (w\<lparr>trace := tr\<rparr>) = no_fault_before n w"
  by (simp add: no_fault_before_def)

lemma no_fault_before_faults:
  "faults w' = faults w \<Longrightarrow> no_fault_before n w' = no_fault_before n w"
  by (simp add: no_fault_before_def)

lemma fault_at_drop: "faults w' = drop n (faults w) \<Longrightarrow> fault_at m w' = fault_at (n + m) w"
  by (auto simp: fault_at_def add.commute)

lemma cursor_steps_prefix:
  "n \<le> length rs \<Longrightarrow> no_fault_before n w \<Longrightarrow> \<forall>(k, v)\<in>set (take n rs). cb v k = None \<Longrightarrow>
   cursor_steps s cb rs w =
     cursor_steps s cb (drop n rs)
       (w\<lparr>faults := drop n (faults w), trace := trace w @ cursor_events s (take n rs)\<rparr>)"
proof (induction n arbitrary: rs w)
  case 0
  then show ?case by simp
next
  case (Suc n)
  from Suc.prems(1) obtain k v rs' where rs: "rs = (k, v) # rs'"
    by (cases rs) auto
  let ?w1 = "(emit (ContinueRequest s) (emit (Visited v k) w))\<lparr>faults := tl (faults w)\<rparr>"
  from Suc.prems(2) have nf: "fault_at 0 w = None" "no_fault_before n ?w1"
    using no_fault_before_faults [of ?w1 "w\<lparr>faults := tl (faults w)\<rparr>" n]
    by (simp_all add: no_fault_before_Suc)
  from Suc.prems(3) have ok: "cb v k = None" "\<forall>(k, v)\<in>set (take n rs'). cb v k = None"
    by (simp_all add: rs)
  from Suc.prems(1) have "n \<le> length rs'"
    by (simp add: rs)
  from Suc.IH [OF this nf(2) ok(2)] ok(1) nf(1) show ?case
    by (simp add: rs issue_eq emit_def drop_Suc)
qed

lemma iterate_prefix:
  assumes tx: "transaction ix s ReadOnly w = Resolved (dbn, st)"
    and n: "n \<le> length (os_records st)" and nf: "no_fault_before (Suc n) w"
    and ok: "\<forall>(k, v)\<in>set (take n (os_records st)). cb v k = None"
  shows "iterate ix s cb w =
           cursor_steps s cb (drop n (os_records st))
             (w\<lparr>faults := drop (Suc n) (faults w),
                trace := trace w @ OpenCursorRequest s # cursor_events s (take n (os_records st))\<rparr>)"
proof -
  let ?w1 = "(emit (OpenCursorRequest s) w)\<lparr>faults := tl (faults w)\<rparr>"
  from nf have nf': "fault_at 0 w = None" "no_fault_before n ?w1"
    using no_fault_before_faults [of ?w1 "w\<lparr>faults := tl (faults w)\<rparr>" n]
    by (simp_all add: no_fault_before_Suc)
  from cursor_steps_prefix [OF n nf'(2) ok, of s] nf'(1) show ?thesis
    by (simp add: iterate_def tx issue_eq emit_def drop_Suc)
qed

lemma iterate_ok:
  assumes tx: "transaction ix s ReadOnly w = Resolved (dbn, st)"
    and nf: "no_fault_before (Suc (length (os_records st))) w"
    and ok: "\<forall>(k, v)\<in>set (os_records st). cb v k = None"
  shows "iterate ix s cb w =
           (Resolved (),
            w\<lparr>faults := drop (Suc (length (os_records st))) (faults w),
              trace := trace w @ OpenCursorRequest s # cursor_events s (os_records st)\<rparr>)"
  using iterate_prefix [OF tx _ nf, of cb] ok by simp

lemma iterate_fault:
  assumes tx: "transaction ix s ReadOnly w = Resolved (dbn, st)"
    and n: "n \<le> length (os_records st)"
    and nf: "no_fault_before n w" and f: "fault_at n w = Some e"
    and ok: "\<forall>(k, v)\<in>set (take n (os_records st)). cb v k = None"
  shows "fst (iterate ix s cb w) = Rejected e"
    and "new_events w (snd (iterate ix s cb w)) =
           OpenCursorRequest s # cursor_events s (take n (os_records st))"
proof -
  have "fst (iterate ix s cb w) = Rejected e \<and>
        new_events w (snd (iterate ix s cb w)) =
           OpenCursorRequest s # cursor_events s (take n (os_records st))"
  proof (cases n)
    case 0
    with f show ?thesis
      by (simp add: iterate_def tx issue_eq new_events_def)
  next
    case (Suc m)
    let ?rs = "os_records st"
    let ?w1 = "w\<lparr>faults := drop (Suc m) (faults w),
                 trace := trace w @ OpenCursorRequest s # cursor_events s (take m ?rs)\<rparr>"
    from n Suc have m: "m < length ?rs"
      by simp
    then obtain k v where km: "?rs ! m = (k, v)"
      by (cases "?rs ! m")
    from m km have d: "drop m ?rs = (k, v) # drop (Suc m) ?rs"
      by (simp add: Cons_nth_drop_Suc [symmetric])
    from m km have tk: "take (Suc m) ?rs = take m ?rs @ [(k, v)]"
      by (simp add: take_Suc_conv_app_nth)
    from ok Suc tk have okm: "\<forall>(k, v)\<in>set (take m ?rs). cb v k = None" and okv: "cb v k = None"
      by simp_all
    from nf Suc have nfm: "no_fault_before (Suc m) w"
      by simp
    have fm: "fault_at 0 (emit (Visited v k) ?w1) = Some e"
      using f Suc fault_at_drop [of "emit (Visited v k) ?w1" "Suc m" w 0] by simp
    have ce: "cursor_events s (take m ?rs @ [(k, v)]) =
                cursor_events s (take m ?rs) @ [Visited v k, ContinueRequest s]"
      by (simp add: cursor_events_def)
    from m have "m \<le> length ?rs"
      by simp
    from iterate_prefix [OF tx this nfm okm] okv fm show ?thesis
      by (simp add: d issue_eq new_events_def Suc tk ce)
  qed
  then show "fst (iterate ix s cb w) = Rejected e"
    and "new_events w (snd (iterate ix s cb w)) =
           OpenCursorRequest s # cursor_events s (take n (os_records st))"
    by simp_all
qed

lemma run_writes_prefix:
  "n \<le> length vs \<Longrightarrow> no_fault_before n w \<Longrightarrow> write_all ov (take n vs) st = Some (ks, st1) \<Longrightarrow>
   run_writes ov ev (map Inr vs) (st, False, w) =
     (case run_writes ov ev (map Inr (drop n vs))
             (st1, False, w\<lparr>faults := drop n (faults w), trace := trace w @ map ev (take n vs)\<rparr>)
      of (rs, s') \<Rightarrow> (map Inr ks @ rs, s'))"
proof (induction n arbitrary: vs w st ks)
  case 0
  then show ?case by simp
next
  case (Suc n)
  from Suc.prems(1) obtain v vs' where vs: "vs = v # vs'"
    by (cases vs) auto
  from Suc.prems(3) obtain k st2 ks' where
    sr: "store_record ov v st = Inr (k, st2)" and wa: "write_all ov (take n vs') st2 = Some (ks', st1)"
    and ks: "ks = k # ks'"
    by (auto simp: vs split: sum.splits option.splits)
  let ?w1 = "(emit (ev v) w)\<lparr>faults := tl (faults w)\<rparr>"
  from Suc.prems(2) have nf: "fault_at 0 w = None" "no_fault_before n ?w1"
    using no_fault_before_faults [of ?w1 "w\<lparr>faults := tl (faults w)\<rparr>" n]
    by (simp_all add: no_fault_before_Suc)
  from Suc.prems(1) have "n \<le> length vs'"
    by (simp add: vs)
  from Suc.IH [OF this nf(2) wa] nf(1) sr show ?case
    by (simp add: vs ks issue_eq emit_def drop_Suc split: prod.splits)
qed

lemma first_rejection_append_Inr [simp]:
  "first_rejection (map Inr ks @ rs) = first_rejection rs"
  by (induction ks) auto

lemma no_fault_before_less:
  assumes "no_fault_before (Suc n) w"
  shows "no_fault_before n w" "fault_at n w = None"
proof -
  have "set (take n (faults w)) \<subseteq> set (take (Suc n) (faults w))"
    by (rule set_take_subset_set_take) simp
  with assms show "no_fault_before n w"
    by (auto simp: no_fault_before_def list_all_iff)
  show "fault_at n w = None"
  proof (cases "n < length (faults w)")
    case True
    then have "take (Suc n) (faults w) ! n \<in> set (take (Suc n) (faults w))"
      by (intro nth_mem) simp
    with assms True show ?thesis
      by (simp add: no_fault_before_def list_all_iff fault_at_def)
  next
    case False
    then show ?thesis
      by (simp add: fault_at_def)
  qed
qed

lemma bulk_request_fails:
  assumes n: "n < length vs" and nf: "no_fault_before n w" and f: "fault_at n w = Some e"
    and wa: "write_all ov (take n vs) st \<noteq> None"
  shows "promise_all (map Inr vs) (fst (run_writes ov ev (map Inr vs) (st, False, w))) = Rejected e"
proof -
  from wa obtain ks st1 where wa': "write_all ov (take n vs) st = Some (ks, st1)"
    by auto
  let ?w1 = "w\<lparr>faults := drop n (faults w), trace := trace w @ map ev (take n vs)\<rparr>"
  from n have d: "drop n vs = vs ! n # drop (Suc n) vs"
    by (simp add: Cons_nth_drop_Suc)
  have f1: "fault_at 0 ?w1 = Some e"
    using f fault_at_drop [of ?w1 n w 0] by simp
  from n have "n \<le> length vs"
    by simp
  from run_writes_prefix [OF this nf wa', where ev = ev] f1 show ?thesis
    by (simp add: d issue_eq promise_all_def split: prod.splits)
qed

lemma bulk_constraint_fails:
  assumes n: "n < length vs" and nf: "no_fault_before (Suc n) w"
    and wa: "write_all ov (take n vs) st = Some (ks, st1)"
    and sr: "store_record ov (vs ! n) st1 = Inl e"
  shows "promise_all (map Inr vs) (fst (run_writes ov ev (map Inr vs) (st, False, w))) = Rejected e"
proof -
  let ?w1 = "w\<lparr>faults := drop n (faults w), trace := trace w @ map ev (take n vs)\<rparr>"
  from n have d: "drop n vs = vs ! n # drop (Suc n) vs"
    by (simp add: Cons_nth_drop_Suc)
  note nfn = no_fault_before_less(1) [OF nf]
  have f1: "fault_at 0 ?w1 = None"
    using no_fault_before_less(2) [OF nf] fault_at_drop [of ?w1 n w 0] by simp
  from n have "n \<le> length vs"
    by simp
  from run_writes_prefix [OF this nfn wa, where ev = ev] f1 sr show ?thesis
    by (simp add: d issue_eq promise_all_def split: prod.splits)
qed

lemma first_rejection_invalid:
  "\<exists>v\<in>set vs. validate_write st v \<noteq> None \<Longrightarrow>
   first_rejection (issue_all st vs) = Some (DOMException ''DataError'')"
proof (induction vs)
  case Nil
  then show ?case by simp
next
  case (Cons v vs)
  show ?case
  proof (cases "validate_write st v")
    case None
    with Cons show ?thesis
      by (simp add: issue_all_def)
  next
    case (Some e)
    with validate_write_error [OF Some] show ?thesis
      by (simp add: issue_all_def)
  qed
qed

lemma handle_failure_propagates:
  assumes "transaction ix s ReadOnly w = Rejected e"
  shows "fst (add ix s v w) = Rejected e" "fst (get ix s k w) = Rejected e"
    "fst (getAll ix s w) = Rejected e" "fst (update ix s v w) = Rejected e"
    "fst (delete ix s k w) = Rejected e" "fst (clear ix s w) = Rejected e"
    "fst (getByIndex ix s i q w) = Rejected e" "fst (count ix s w) = Rejected e"
    "fst (exists ix s k w) = Rejected e" "fst (bulkAdd ix s vs w) = Rejected e"
    "fst (bulkUpdate ix s vs w) = Rejected e" "fst (iterate ix s f w) = Rejected e"
proof -
  have rw: "transaction ix s ReadWrite w = Rejected e"
    using assms transaction_mode [of ix s ReadWrite w ReadOnly] by simp
  show "fst (add ix s v w) = Rejected e" "fst (get ix s k w) = Rejected e"
    "fst (getAll ix s w) = Rejected e" "fst (update ix s v w) = Rejected e"
    "fst (delete ix s k w) = Rejected e" "fst (clear ix s w) = Rejected e"
    "fst (getByIndex ix s i q w) = Rejected e" "fst (count ix s w) = Rejected e"
    "fst (exists ix s k w) = Rejected e" "fst (bulkAdd ix s vs w) = Rejected e"
    "fst (bulkUpdate ix s vs w) = Rejected e" "fst (iterate ix s f w) = Rejected e"
    using assms rw
    by (simp_all add: add_def get_def getAll_def update_def delete_def clear_def
        getByIndex_def count_def exists_def bulkAdd_def bulkUpdate_def iterate_def)
qed

lemma request_failure_propagates:
  assumes ro: "transaction ix s ReadOnly w = Resolved (dbn, st)" and f: "fault_at 0 w = Some e"
  shows "fst (get ix s k w) = Rejected e" "fst (getAll ix s w) = Rejected e"
    "fst (delete ix s k w) = Rejected e" "fst (clear ix s w) = Rejected e"
    "fst (count ix s w) = Rejected e" "fst (exists ix s k w) = Rejected e"
    "fst (iterate ix s cb w) = Rejected e"
    "validate_write st v = None \<Longrightarrow> fst (add ix s v w) = Rejected e"
    "validate_write st v = None \<Longrightarrow> fst (update ix s v w) = Rejected e"
    "map_of (os_indexes st) i \<noteq> None \<Longrightarrow> fst (getByIndex ix s i q w) = Rejected e"
proof -
  have rw: "transaction ix s ReadWrite w = Resolved (dbn, st)"
    using ro transaction_mode [of ix s ReadWrite w ReadOnly] by simp
  show "fst (get ix s k w) = Rejected e" "fst (getAll ix s w) = Rejected e"
    "fst (delete ix s k w) = Rejected e" "fst (clear ix s w) = Rejected e"
    "fst (count ix s w) = Rejected e" "fst (exists ix s k w) = Rejected e"
    "fst (iterate ix s cb w) = Rejected e"
    using ro rw f
    by (simp_all add: get_def getAll_def delete_def clear_def count_def exists_def iterate_def
        issue_eq)
  show "validate_write st v = None \<Longrightarrow> fst (add ix s v w) = Rejected e"
    "validate_write st v = None \<Longrightarrow> fst (update ix s v w) = Rejected e"
    using rw f by (simp_all add: add_def update_def issue_eq)
  show "map_of (os_indexes st) i \<noteq> None \<Longrightarrow> fst (getByIndex ix s i q w) = Rejected e"
    using ro f by (auto simp: getByIndex_def issue_eq)
qed

lemma thrown_by_engine_propagates:
  assumes ro: "transaction ix s ReadOnly w = Resolved (dbn, st)"
  shows "validate_write st v = Some e \<Longrightarrow> fst (add ix s v w) = Rejected e"
    "validate_write st v = Some e \<Longrightarrow> fst (update ix s v w) = Rejected e"
    "map_of (os_indexes st) i = None \<Longrightarrow>
       fst (getByIndex ix s i q w) = Rejected (DOMException ''NotFoundError'')"
    "\<exists>v\<in>set vs. validate_write st v \<noteq> None \<Longrightarrow>
       fst (bulkAdd ix s vs w) = Rejected (DOMException ''DataError'')"
    "\<exists>v\<in>set vs. validate_write st v \<noteq> None \<Longrightarrow>
       fst (bulkUpdate ix s vs w) = Rejected (DOMException ''DataError'')"
proof -
  have rw: "transaction ix s ReadWrite w = Resolved (dbn, st)"
    using ro transaction_mode [of ix s ReadWrite w ReadOnly] by simp
  show "validate_write st v = Some e \<Longrightarrow> fst (add ix s v w) = Rejected e"
    "validate_write st v = Some e \<Longrightarrow> fst (update ix s v w) = Rejected e"
    using rw by (simp_all add: add_def update_def)
  show "map_of (os_indexes st) i = None \<Longrightarrow>
       fst (getByIndex ix s i q w) = Rejected (DOMException ''NotFoundError'')"
    using ro by (simp add: getByIndex_def)
  show "\<exists>v\<in>set vs. validate_write st v \<noteq> None \<Longrightarrow>
       fst (bulkAdd ix s vs w) = Rejected (DOMException ''DataError'')"
    using rw first_rejection_invalid [of vs st]
    by (auto simp: bulkAdd_def Let_def promise_all_def split: prod.splits)
  show "\<exists>v\<in>set vs. validate_write st v \<noteq> None \<Longrightarrow>
       fst (bulkUpdate ix s vs w) = Rejected (DOMException ''DataError'')"
    using rw first_rejection_invalid [of vs st]
    by (auto simp: bulkUpdate_def Let_def promise_all_def split: prod.splits)
qed

lemma constraint_failure_propagates:
  assumes ro: "transaction ix s ReadOnly w = Resolved (dbn, st)" and "fault_at 0 w = None"
    and "validate_write st v = None"
  shows "store_record True v st = Inl e \<Longrightarrow> fst (add ix s v w) = Rejected e"
    "store_record False v st = Inl e \<Longrightarrow> fst (update ix s v w) = Rejected e"
proof -
  have rw: "transaction ix s ReadWrite w = Resolved (dbn, st)"
    using ro transaction_mode [of ix s ReadWrite w ReadOnly] by simp
  show "store_record True v st = Inl e \<Longrightarrow> fst (add ix s v w) = Rejected e"
    "store_record False v st = Inl e \<Longrightarrow> fst (update ix s v w) = Rejected e"
    using assms(2-) by (simp_all add: add_def update_def rw issue_eq)
qed

lemma bulk_failure_propagates:
  assumes ro: "transaction ix s ReadOnly w = Resolved (dbn, st)"
    and vs: "\<forall>v\<in>set vs. validate_write st v = None" and n: "n < length vs"
  shows "no_fault_before n w \<Longrightarrow> fault_at n w = Some e \<Longrightarrow>
           write_all True (take n vs) st \<noteq> None \<Longrightarrow> fst (bulkAdd ix s vs w) = Rejected e"
    "no_fault_before n w \<Longrightarrow> fault_at n w = Some e \<Longrightarrow>
           write_all False (take n vs) st \<noteq> None \<Longrightarrow> fst (bulkUpdate ix s vs w) = Rejected e"
    "no_fault_before (Suc n) w \<Longrightarrow> write_all True (take n vs) st = Some (ks, st1) \<Longrightarrow>
           store_record True (vs ! n) st1 = Inl e \<Longrightarrow> fst (bulkAdd ix s vs w) = Rejected e"
    "no_fault_before (Suc n) w \<Longrightarrow> write_all False (take n vs) st = Some (ks, st1) \<Longrightarrow>
           store_record False (vs ! n) st1 = Inl e \<Longrightarrow> fst (bulkUpdate ix s vs w) = Rejected e"
proof -
  have rw: "transaction ix s ReadWrite w = Resolved (dbn, st)"
    using ro transaction_mode [of ix s ReadWrite w ReadOnly] by simp
  show "no_fault_before n w \<Longrightarrow> fault_at n w = Some e \<Longrightarrow>
           write_all True (take n vs) st \<noteq> None \<Longrightarrow> fst (bulkAdd ix s vs w) = Rejected e"
    using bulk_request_fails [OF n, where w = w and e = e and ov = True and st = st
        and ev = "AddRequest s"]
    by (auto simp: bulkAdd_def rw issue_all_valid [OF vs] Let_def split: prod.splits)
  show "no_fault_before n w \<Longrightarrow> fault_at n w = Some e \<Longrightarrow>
           write_all False (take n vs) st \<noteq> None \<Longrightarrow> fst (bulkUpdate ix s vs w) = Rejected e"
    using bulk_request_fails [OF n, where w = w and e = e and ov = False and st = st
        and ev = "PutRequest s"]
    by (auto simp: bulkUpdate_def rw issue_all_valid [OF vs] Let_def split: prod.splits)
  show "no_fault_before (Suc n) w \<Longrightarrow> write_all True (take n vs) st = Some (ks, st1) \<Longrightarrow>
           store_record True (vs ! n) st1 = Inl e \<Longrightarrow> fst (bulkAdd ix s vs w) = Rejected e"
    using bulk_constraint_fails [OF n, where w = w and e = e and ov = True and st = st
        and ks = ks and ?st1.0 = st1 and ev = "AddRequest s"]
    by (auto simp: bulkAdd_def rw issue_all_valid [OF vs] Let_def split: prod.splits)
  show "no_fault_before (Suc n) w \<Longrightarrow> write_all False (take n vs) st = Some (ks, st1) \<Longrightarrow>
           store_record False (vs ! n) st1 = Inl e \<Longrightarrow> fst (bulkUpdate ix s vs w) = Rejected e"
    using bulk_constraint_fails [OF n, where w = w and e = e and ov = False and st = st
        and ks = ks and ?st1.0 = st1 and ev = "PutRequest s"]
    by (auto simp: bulkUpdate_def rw issue_all_valid [OF vs] Let_def split: prod.splits)
qed

text \<open>
  Claim C1, as amended. Each operation of the operation layer rejects with the engine's
  own error object, not with a wrapper of it: whenever an operation rejects, its error is
  the one the connection promise rejected with, a failure the engine reported for a
  request of the run, or an exception the engine throws by its own rules. When the store
  handle cannot be obtained (the connection promise rejected, the connection closed, the
  store unknown), every operation rejects with the error \<open>transaction\<close> rejected with.
  With the handle obtained: when the engine fails the first request with \<open>e\<close>, the
  operation rejects with \<open>e\<close>; an exception of \<open>store.add\<close>, \<open>store.put\<close> or
  \<open>store.index\<close> is the rejection as it is thrown, for the bulk operations too; the
  error the engine reports for an \<open>add\<close> or a \<open>put\<close> it refuses is the rejection of
  \<open>add\<close> and of \<open>update\<close>; a bulk operation rejects with the error of the first of
  its requests that fails, whether the engine reports a fault for it or refuses the
  value; and \<open>iterate\<close> rejects with the error reported for the opening of the cursor
  or for any advance it reaches.
\<close>

theorem engine_errors_reach_caller_raw:
  "(fst (add ix s v w) = Rejected e \<longrightarrow> engine_error ix w e) \<and>
   (fst (get ix s k w) = Rejected e \<longrightarrow> engine_error ix w e) \<and>
   (fst (getAll ix s w) = Rejected e \<longrightarrow> engine_error ix w e) \<and>
   (fst (update ix s v w) = Rejected e \<longrightarrow> engine_error ix w e) \<and>
   (fst (delete ix s k w) = Rejected e \<longrightarrow> engine_error ix w e) \<and>
   (fst (clear ix s w) = Rejected e \<longrightarrow> engine_error ix w e) \<and>
   (fst (getByIndex ix s i q w) = Rejected e \<longrightarrow> engine_error ix w e) \<and>
   (fst (count ix s w) = Rejected e \<longrightarrow> engine_error ix w e) \<and>
   (fst (exists ix s k w) = Rejected e \<longrightarrow> engine_error ix w e) \<and>
   (fst (bulkAdd ix s vs w) = Rejected e \<longrightarrow> engine_error ix w e) \<and>
   (fst (bulkUpdate ix s vs w) = Rejected e \<longrightarrow> engine_error ix w e) \<and>
   (fst (iterate ix s cb w) = Rejected e \<longrightarrow> engine_error ix w e) \<and>
   (transaction ix s ReadOnly w = Rejected e \<longrightarrow>
      fst (add ix s v w) = Rejected e \<and> fst (get ix s k w) = Rejected e \<and>
      fst (getAll ix s w) = Rejected e \<and> fst (update ix s v w) = Rejected e \<and>
      fst (delete ix s k w) = Rejected e \<and> fst (clear ix s w) = Rejected e \<and>
      fst (getByIndex ix s i q w) = Rejected e \<and> fst (count ix s w) = Rejected e \<and>
      fst (exists ix s k w) = Rejected e \<and> fst (bulkAdd ix s vs w) = Rejected e \<and>
      fst (bulkUpdate ix s vs w) = Rejected e \<and> fst (iterate ix s cb w) = Rejected e) \<and>
   (transaction ix s ReadOnly w = Resolved (dbn, st) \<longrightarrow>
      (fault_at 0 w = Some e \<longrightarrow>
         fst (get ix s k w) = Rejected e \<and> fst (getAll ix s w) = Rejected e \<and>
         fst (delete ix s k w) = Rejected e \<and> fst (clear ix s w) = Rejected e \<and>
         fst (count ix s w) = Rejected e \<and> fst (exists ix s k w) = Rejected e \<and>
         fst (iterate ix s cb w) = Rejected e \<and>
         (validate_write st v = None \<longrightarrow>
            fst (add ix s v w) = Rejected e \<and> fst (update ix s v w) = Rejected e) \<and>
         (map_of (os_indexes st) i \<noteq> None \<longrightarrow> fst (getByIndex ix s i q w) = Rejected e)) \<and>
      (validate_write st v = Some e \<longrightarrow>
         fst (add ix s v w) = Rejected e \<and> fst (update ix s v w) = Rejected e) \<and>
      (map_of (os_indexes st) i = None \<longrightarrow>
         fst (getByIndex ix s i q w) = Rejected (DOMException ''NotFoundError'')) \<and>
      ((\<exists>v\<in>set vs. validate_write st v \<noteq> None) \<longrightarrow>
         fst (bulkAdd ix s vs w) = Rejected (DOMException ''DataError'') \<and>
         fst (bulkUpdate ix s vs w) = Rejected (DOMException ''DataError'')) \<and>
      (fault_at 0 w = None \<and> validate_write st v = None \<longrightarrow>
         (store_record True v st = Inl e \<longrightarrow> fst (add ix s v w) = Rejected e) \<and>
         (store_record False v st = Inl e \<longrightarrow> fst (update ix s v w) = Rejected e)) \<and>
      ((\<forall>v\<in>set vs. validate_write st v = None) \<and> n < length vs \<longrightarrow>
         (no_fault_before n w \<and> fault_at n w = Some e \<and>
          write_all True (take n vs) st \<noteq> None \<longrightarrow> fst (bulkAdd ix s vs w) = Rejected e) \<and>
         (no_fault_before n w \<and> fault_at n w = Some e \<and>
          write_all False (take n vs) st \<noteq> None \<longrightarrow> fst (bulkUpdate ix s vs w) = Rejected e) \<and>
         (no_fault_before (Suc n) w \<and> write_all True (take n vs) st = Some (ks, st1) \<and>
          store_record True (vs ! n) st1 = Inl e \<longrightarrow> fst (bulkAdd ix s vs w) = Rejected e) \<and>
         (no_fault_before (Suc n) w \<and> write_all False (take n vs) st = Some (ks, st1) \<and>
          store_record False (vs ! n) st1 = Inl e \<longrightarrow> fst (bulkUpdate ix s vs w) = Rejected e)) \<and>
      (m \<le> length (os_records st) \<and> no_fault_before m w \<and> fault_at m w = Some e \<and>
       (\<forall>(k, v)\<in>set (take m (os_records st)). cb v k = None) \<longrightarrow>
         fst (iterate ix s cb w) = Rejected e))"
proof -
  have a: "(fst (add ix s v w) = Rejected e \<longrightarrow> engine_error ix w e) \<and>
   (fst (get ix s k w) = Rejected e \<longrightarrow> engine_error ix w e) \<and>
   (fst (getAll ix s w) = Rejected e \<longrightarrow> engine_error ix w e) \<and>
   (fst (update ix s v w) = Rejected e \<longrightarrow> engine_error ix w e) \<and>
   (fst (delete ix s k w) = Rejected e \<longrightarrow> engine_error ix w e) \<and>
   (fst (clear ix s w) = Rejected e \<longrightarrow> engine_error ix w e) \<and>
   (fst (getByIndex ix s i q w) = Rejected e \<longrightarrow> engine_error ix w e) \<and>
   (fst (count ix s w) = Rejected e \<longrightarrow> engine_error ix w e) \<and>
   (fst (exists ix s k w) = Rejected e \<longrightarrow> engine_error ix w e) \<and>
   (fst (bulkAdd ix s vs w) = Rejected e \<longrightarrow> engine_error ix w e) \<and>
   (fst (bulkUpdate ix s vs w) = Rejected e \<longrightarrow> engine_error ix w e) \<and>
   (fst (iterate ix s cb w) = Rejected e \<longrightarrow> engine_error ix w e)"
    by (intro conjI impI)
      (erule rejection_is_engine_error rejection_is_engine_error_more)+
  have b: "(transaction ix s ReadOnly w = Rejected e \<longrightarrow>
      fst (add ix s v w) = Rejected e \<and> fst (get ix s k w) = Rejected e \<and>
      fst (getAll ix s w) = Rejected e \<and> fst (update ix s v w) = Rejected e \<and>
      fst (delete ix s k w) = Rejected e \<and> fst (clear ix s w) = Rejected e \<and>
      fst (getByIndex ix s i q w) = Rejected e \<and> fst (count ix s w) = Rejected e \<and>
      fst (exists ix s k w) = Rejected e \<and> fst (bulkAdd ix s vs w) = Rejected e \<and>
      fst (bulkUpdate ix s vs w) = Rejected e \<and> fst (iterate ix s cb w) = Rejected e)"
    by (simp add: handle_failure_propagates)
  have c: "(fault_at 0 w = Some e \<longrightarrow>
         fst (get ix s k w) = Rejected e \<and> fst (getAll ix s w) = Rejected e \<and>
         fst (delete ix s k w) = Rejected e \<and> fst (clear ix s w) = Rejected e \<and>
         fst (count ix s w) = Rejected e \<and> fst (exists ix s k w) = Rejected e \<and>
         fst (iterate ix s cb w) = Rejected e \<and>
         (validate_write st v = None \<longrightarrow>
            fst (add ix s v w) = Rejected e \<and> fst (update ix s v w) = Rejected e) \<and>
         (map_of (os_indexes st) i \<noteq> None \<longrightarrow> fst (getByIndex ix s i q w) = Rejected e)) \<and>
      (validate_write st v = Some e \<longrightarrow>
         fst (add ix s v w) = Rejected e \<and> fst (update ix s v w) = Rejected e) \<and>
      (map_of (os_indexes st) i = None \<longrightarrow>
         fst (getByIndex ix s i q w) = Rejected (DOMException ''NotFoundError'')) \<and>
      ((\<exists>v\<in>set vs. validate_write st v \<noteq> None) \<longrightarrow>
         fst (bulkAdd ix s vs w) = Rejected (DOMException ''DataError'') \<and>
         fst (bulkUpdate ix s vs w) = Rejected (DOMException ''DataError'')) \<and>
      (fault_at 0 w = None \<and> validate_write st v = None \<longrightarrow>
         (store_record True v st = Inl e \<longrightarrow> fst (add ix s v w) = Rejected e) \<and>
         (store_record False v st = Inl e \<longrightarrow> fst (update ix s v w) = Rejected e)) \<and>
      ((\<forall>v\<in>set vs. validate_write st v = None) \<and> n < length vs \<longrightarrow>
         (no_fault_before n w \<and> fault_at n w = Some e \<and>
          write_all True (take n vs) st \<noteq> None \<longrightarrow> fst (bulkAdd ix s vs w) = Rejected e) \<and>
         (no_fault_before n w \<and> fault_at n w = Some e \<and>
          write_all False (take n vs) st \<noteq> None \<longrightarrow> fst (bulkUpdate ix s vs w) = Rejected e) \<and>
         (no_fault_before (Suc n) w \<and> write_all True (take n vs) st = Some (ks, st1) \<and>
          store_record True (vs ! n) st1 = Inl e \<longrightarrow> fst (bulkAdd ix s vs w) = Rejected e) \<and>
         (no_fault_before (Suc n) w \<and> write_all False (take n vs) st = Some (ks, st1) \<and>
          store_record False (vs ! n) st1 = Inl e \<longrightarrow> fst (bulkUpdate ix s vs w) = Rejected e)) \<and>
      (m \<le> length (os_records st) \<and> no_fault_before m w \<and> fault_at m w = Some e \<and>
       (\<forall>(k, v)\<in>set (take m (os_records st)). cb v k = None) \<longrightarrow>
         fst (iterate ix s cb w) = Rejected e)"
    if ro: "transaction ix s ReadOnly w = Resolved (dbn, st)"
  proof -
    have c1: "(fault_at 0 w = Some e \<longrightarrow>
         fst (get ix s k w) = Rejected e \<and> fst (getAll ix s w) = Rejected e \<and>
         fst (delete ix s k w) = Rejected e \<and> fst (clear ix s w) = Rejected e \<and>
         fst (count ix s w) = Rejected e \<and> fst (exists ix s k w) = Rejected e \<and>
         fst (iterate ix s cb w) = Rejected e \<and>
         (validate_write st v = None \<longrightarrow>
            fst (add ix s v w) = Rejected e \<and> fst (update ix s v w) = Rejected e) \<and>
         (map_of (os_indexes st) i \<noteq> None \<longrightarrow> fst (getByIndex ix s i q w) = Rejected e))"
    proof
      assume f: "fault_at 0 w = Some e"
      note r = request_failure_propagates [OF ro f]
      from r(8-10) show "fst (get ix s k w) = Rejected e \<and> fst (getAll ix s w) = Rejected e \<and>
         fst (delete ix s k w) = Rejected e \<and> fst (clear ix s w) = Rejected e \<and>
         fst (count ix s w) = Rejected e \<and> fst (exists ix s k w) = Rejected e \<and>
         fst (iterate ix s cb w) = Rejected e \<and>
         (validate_write st v = None \<longrightarrow>
            fst (add ix s v w) = Rejected e \<and> fst (update ix s v w) = Rejected e) \<and>
         (map_of (os_indexes st) i \<noteq> None \<longrightarrow> fst (getByIndex ix s i q w) = Rejected e)"
        by (simp add: r(1-7))
    qed
    have c2: "(validate_write st v = Some e \<longrightarrow>
         fst (add ix s v w) = Rejected e \<and> fst (update ix s v w) = Rejected e) \<and>
      (map_of (os_indexes st) i = None \<longrightarrow>
         fst (getByIndex ix s i q w) = Rejected (DOMException ''NotFoundError'')) \<and>
      ((\<exists>v\<in>set vs. validate_write st v \<noteq> None) \<longrightarrow>
         fst (bulkAdd ix s vs w) = Rejected (DOMException ''DataError'') \<and>
         fst (bulkUpdate ix s vs w) = Rejected (DOMException ''DataError''))"
      using thrown_by_engine_propagates [OF ro] by blast
    have c3: "(fault_at 0 w = None \<and> validate_write st v = None \<longrightarrow>
         (store_record True v st = Inl e \<longrightarrow> fst (add ix s v w) = Rejected e) \<and>
         (store_record False v st = Inl e \<longrightarrow> fst (update ix s v w) = Rejected e))"
      using constraint_failure_propagates [OF ro] by blast
    have c4: "((\<forall>v\<in>set vs. validate_write st v = None) \<and> n < length vs \<longrightarrow>
         (no_fault_before n w \<and> fault_at n w = Some e \<and>
          write_all True (take n vs) st \<noteq> None \<longrightarrow> fst (bulkAdd ix s vs w) = Rejected e) \<and>
         (no_fault_before n w \<and> fault_at n w = Some e \<and>
          write_all False (take n vs) st \<noteq> None \<longrightarrow> fst (bulkUpdate ix s vs w) = Rejected e) \<and>
         (no_fault_before (Suc n) w \<and> write_all True (take n vs) st = Some (ks, st1) \<and>
          store_record True (vs ! n) st1 = Inl e \<longrightarrow> fst (bulkAdd ix s vs w) = Rejected e) \<and>
         (no_fault_before (Suc n) w \<and> write_all False (take n vs) st = Some (ks, st1) \<and>
          store_record False (vs ! n) st1 = Inl e \<longrightarrow> fst (bulkUpdate ix s vs w) = Rejected e))"
      using bulk_failure_propagates [OF ro, of vs n] by blast
    have c5: "(m \<le> length (os_records st) \<and> no_fault_before m w \<and> fault_at m w = Some e \<and>
       (\<forall>(k, v)\<in>set (take m (os_records st)). cb v k = None) \<longrightarrow>
         fst (iterate ix s cb w) = Rejected e)"
      using iterate_fault(1) [OF ro] by blast
    from c1 c2 c3 c4 c5 show ?thesis
      by - ((elim conjE)?, (intro conjI; assumption))
  qed
  then have c': "transaction ix s ReadOnly w = Resolved (dbn, st) \<longrightarrow> 
      (fault_at 0 w = Some e \<longrightarrow>
         fst (get ix s k w) = Rejected e \<and> fst (getAll ix s w) = Rejected e \<and>
         fst (delete ix s k w) = Rejected e \<and> fst (clear ix s w) = Rejected e \<and>
         fst (count ix s w) = Rejected e \<and> fst (exists ix s k w) = Rejected e \<and>
         fst (iterate ix s cb w) = Rejected e \<and>
         (validate_write st v = None \<longrightarrow>
            fst (add ix s v w) = Rejected e \<and> fst (update ix s v w) = Rejected e) \<and>
         (map_of (os_indexes st) i \<noteq> None \<longrightarrow> fst (getByIndex ix s i q w) = Rejected e)) \<and>
      (validate_write st v = Some e \<longrightarrow>
         fst (add ix s v w) = Rejected e \<and> fst (update ix s v w) = Rejected e) \<and>
      (map_of (os_indexes st) i = None \<longrightarrow>
         fst (getByIndex ix s i q w) = Rejected (DOMException ''NotFoundError'')) \<and>
      ((\<exists>v\<in>set vs. validate_write st v \<noteq> None) \<longrightarrow>
         fst (bulkAdd ix s vs w) = Rejected (DOMException ''DataError'') \<and>
         fst (bulkUpdate ix s vs w) = Rejected (DOMException ''DataError'')) \<and>
      (fault_at 0 w = None \<and> validate_write st v = None \<longrightarrow>
         (store_record True v st = Inl e \<longrightarrow> fst (add ix s v w) = Rejected e) \<and>
         (store_record False v st = Inl e \<longrightarrow> fst (update ix s v w) = Rejected e)) \<and>
      ((\<forall>v\<in>set vs. validate_write st v = None) \<and> n < length vs \<longrightarrow>
         (no_fault_before n w \<and> fault_at n w = Some e \<and>
          write_all True (take n vs) st \<noteq> None \<longrightarrow> fst (bulkAdd ix s vs w) = Rejected e) \<and>
         (no_fault_before n w \<and> fault_at n w = Some e \<and>
          write_all False (take n vs) st \<noteq> None \<longrightarrow> fst (bulkUpdate ix s vs w) = Rejected e) \<and>
         (no_fault_before (Suc n) w \<and> write_all True (take n vs) st = Some (ks, st1) \<and>
          store_record True (vs ! n) st1 = Inl e \<longrightarrow> fst (bulkAdd ix s vs w) = Rejected e) \<and>
         (no_fault_before (Suc n) w \<and> write_all False (take n vs) st = Some (ks, st1) \<and>
          store_record False (vs ! n) st1 = Inl e \<longrightarrow> fst (bulkUpdate ix s vs w) = Rejected e)) \<and>
      (m \<le> length (os_records st) \<and> no_fault_before m w \<and> fault_at m w = Some e \<and>
       (\<forall>(k, v)\<in>set (take m (os_records st)). cb v k = None) \<longrightarrow>
         fst (iterate ix s cb w) = Rejected e)"
    by (rule impI)
  from a b c' show ?thesis
    by - ((elim conjE)?, (intro conjI; assumption))
qed

lemma failing_transaction:
  "transaction fresh ''users'' ReadOnly failing_world =
     Resolved (''LocalDB'',
       users_store 2 [(KNum 1, VObj [(''name'', VStr ''Alice''), (''id'', VNum 1)])])"
  by (simp add: failing_world_def one_user_eq fresh_eq eval_defs)

lemma failing_fault: "fault_at 0 failing_world = Some (DOMException ''UnknownError'')"
  by (simp add: failing_world_def fault_at_def)

lemma store_duplicate:
  "validate_write (users_store g rs) duplicate = None"
  "store_record True duplicate
     (users_store 2 [(KNum 1, VObj [(''name'', VStr ''Alice''), (''id'', VNum 1)])]) =
     Inl (DOMException ''ConstraintError'')"
  by (simp_all add: eval_defs)

lemma store_exhausted:
  "store_record False alice (users_store 9007199254740993 []) =
     Inl (DOMException ''ConstraintError'')"
  by (simp add: eval_defs)

theorem engine_errors_reach_caller_raw_witness:
  "fault_at 0 failing_world = Some (DOMException ''UnknownError'') \<and>
   engine_error fresh failing_world (DOMException ''UnknownError'') \<and>
   fst (get fresh ''users'' (KNum 1) failing_world) = Rejected (DOMException ''UnknownError'') \<and>
   fst (getAll fresh ''users'' failing_world) = Rejected (DOMException ''UnknownError'') \<and>
   fst (add fresh ''users'' bob failing_world) = Rejected (DOMException ''UnknownError'') \<and>
   fst (update fresh ''users'' bob failing_world) = Rejected (DOMException ''UnknownError'') \<and>
   fst (clear fresh ''users'' failing_world) = Rejected (DOMException ''UnknownError'') \<and>
   fst (iterate fresh ''users'' (\<lambda>v k. None) failing_world) =
     Rejected (DOMException ''UnknownError'') \<and>
   fst (bulkAdd fresh ''users'' [bob] failing_world) = Rejected (DOMException ''UnknownError'') \<and>
   fst (bulkUpdate fresh ''users'' [bob] failing_world) = Rejected (DOMException ''UnknownError'') \<and>
   fst (getByIndex fresh ''users'' ''email'' (Only (KNum 1)) failing_world) =
     Rejected (DOMException ''NotFoundError'') \<and>
   fst (add fresh ''users'' duplicate one_user) = Rejected (DOMException ''ConstraintError'') \<and>
   fst (update fresh ''users'' alice (users_world 9007199254740993 [] [])) =
     Rejected (DOMException ''ConstraintError'') \<and>
   fst (bulkAdd fresh ''users'' [alice, duplicate] fresh_world) =
     Rejected (DOMException ''ConstraintError'') \<and>
   fst (bulkAdd fresh ''users'' [alice, VStr ''Carol''] fresh_world) =
     Rejected (DOMException ''DataError'')"
proof -
  let ?st = "users_store 2 [(KNum 1, VObj [(''name'', VStr ''Alice''), (''id'', VNum 1)])]"
  note t1 = engine_errors_reach_caller_raw [where ix = fresh and s = "''users''"
      and w = failing_world and e = "DOMException ''UnknownError''" and v = bob
      and k = "KNum 1" and i = "''email''" and q = "Only (KNum 1)" and vs = "[bob]"
      and cb = "\<lambda>v k. None" and dbn = "''LocalDB''" and st = ?st and n = 0 and m = 0
      and ks = "[]" and ?st1.0 = ?st]
  have ix: "map_of (os_indexes ?st) ''email'' = None"
    by (simp add: users_store_def)
  from t1 failing_transaction failing_fault store_bob(1) [of 2] ix
  have a: "fst (get fresh ''users'' (KNum 1) failing_world) = Rejected (DOMException ''UnknownError'') \<and>
   fst (getAll fresh ''users'' failing_world) = Rejected (DOMException ''UnknownError'') \<and>
   fst (add fresh ''users'' bob failing_world) = Rejected (DOMException ''UnknownError'') \<and>
   fst (update fresh ''users'' bob failing_world) = Rejected (DOMException ''UnknownError'') \<and>
   fst (clear fresh ''users'' failing_world) = Rejected (DOMException ''UnknownError'') \<and>
   fst (iterate fresh ''users'' (\<lambda>v k. None) failing_world) =
     Rejected (DOMException ''UnknownError'') \<and>
   fst (bulkAdd fresh ''users'' [bob] failing_world) = Rejected (DOMException ''UnknownError'') \<and>
   fst (bulkUpdate fresh ''users'' [bob] failing_world) = Rejected (DOMException ''UnknownError'') \<and>
   fst (getByIndex fresh ''users'' ''email'' (Only (KNum 1)) failing_world) =
     Rejected (DOMException ''NotFoundError'')"
    by simp
  with t1 have b: "engine_error fresh failing_world (DOMException ''UnknownError'')"
    by blast
  have tx1: "transaction fresh ''users'' ReadOnly one_user = Resolved (''LocalDB'', ?st)"
    by (simp add: one_user_eq fresh_transaction)
  have nf1: "fault_at 0 one_user = None"
    by (simp add: one_user_eq)
  note t2 = engine_errors_reach_caller_raw [where ix = fresh and s = "''users''"
      and w = one_user and e = "DOMException ''ConstraintError''" and v = duplicate
      and dbn = "''LocalDB''" and st = ?st]
  from t2 tx1 nf1 store_duplicate(1) [of 2] store_duplicate(2)
  have c: "fst (add fresh ''users'' duplicate one_user) = Rejected (DOMException ''ConstraintError'')"
    by simp
  have tx2: "transaction fresh ''users'' ReadOnly (users_world 9007199254740993 [] []) =
               Resolved (''LocalDB'', users_store 9007199254740993 [])"
    by (simp add: fresh_transaction)
  note t3 = engine_errors_reach_caller_raw [where ix = fresh and s = "''users''"
      and w = "users_world 9007199254740993 [] []" and e = "DOMException ''ConstraintError''"
      and v = alice and dbn = "''LocalDB''" and st = "users_store 9007199254740993 []"]
  have va: "validate_write (users_store 9007199254740993 []) alice = None"
    by (simp add: eval_defs)
  from t3 tx2 va store_exhausted
  have d: "fst (update fresh ''users'' alice (users_world 9007199254740993 [] [])) =
     Rejected (DOMException ''ConstraintError'')"
    by simp
  have tx3: "transaction fresh ''users'' ReadOnly fresh_world =
               Resolved (''LocalDB'', users_store 1 [])"
    by (simp add: fresh_world_eq fresh_transaction)
  have nf3: "no_fault_before (Suc (Suc 0)) fresh_world"
    by (simp add: fresh_world_eq)
  note t4 = engine_errors_reach_caller_raw [where ix = fresh and s = "''users''"
      and w = fresh_world and e = "DOMException ''ConstraintError''"
      and vs = "[alice, duplicate]" and dbn = "''LocalDB''" and st = "users_store 1 []"
      and n = "Suc 0" and ks = "[KNum 1]" and ?st1.0 = ?st]
  have wa: "write_all True (take (Suc 0) [alice, duplicate]) (users_store 1 []) =
              Some ([KNum 1], ?st)"
    by (simp add: store_alice)
  have vs: "\<forall>v\<in>set [alice, duplicate]. validate_write (users_store 1 []) v = None"
    by (simp add: store_alice store_duplicate)
  from t4 tx3 nf3 wa vs store_duplicate(2)
  have e: "fst (bulkAdd fresh ''users'' [alice, duplicate] fresh_world) =
     Rejected (DOMException ''ConstraintError'')"
    by simp
  note t5 = engine_errors_reach_caller_raw [where ix = fresh and s = "''users''"
      and w = fresh_world and vs = "[alice, VStr ''Carol'']" and dbn = "''LocalDB''"
      and st = "users_store 1 []"]
  have iv: "validate_write (users_store 1 []) (VStr ''Carol'') = Some (DOMException ''DataError'')"
    by (simp add: eval_defs)
  from t5 tx3 iv
  have f: "fst (bulkAdd fresh ''users'' [alice, VStr ''Carol''] fresh_world) =
     Rejected (DOMException ''DataError'')"
    by simp
  from a b c d e f failing_fault show ?thesis
    by simp
qed

text \<open>
  Claim C1 as stated fails: an \<open>add\<close> on an existing key rejects with the engine's
  \<open>ConstraintError\<close> itself, not with a \<open>RequestError\<close> around it, and \<open>getByIndex\<close> on an
  index the store lacks rejects with the engine's \<open>NotFoundError\<close> itself.
\<close>

theorem engine_errors_wrapped_counterexample:
  "fst (add fresh ''users'' duplicate one_user) = Rejected (DOMException ''ConstraintError'') \<and>
   fst (add fresh ''users'' duplicate one_user)
     \<noteq> Rejected (Taxonomy RequestError (DOMException ''ConstraintError'')) \<and>
   fst (getByIndex fresh ''users'' ''email'' (Only (KStr ''alice@example.com'')) one_user) =
     Rejected (DOMException ''NotFoundError'') \<and>
   fst (getByIndex fresh ''users'' ''email'' (Only (KStr ''alice@example.com'')) one_user)
     \<noteq> Rejected (Taxonomy TransactionError (DOMException ''NotFoundError''))"
  by (simp add: one_user_eq fresh_eq eval_defs)

section \<open>Deleting a record\<close>

lemma listeners_array: "lookup (subscribers ix) s = Array arr \<Longrightarrow> listeners ix s = arr"
  by (simp add: listeners_def)








lemma quiet_well_behaved [simp]: "well_behaved (quiet n) data"
  by (simp add: well_behaved_def inert_def quiet_def)

lemma faulty_inert [simp]: "inert (faulty n) data"
  by (simp add: inert_def faulty_def)

lemma quiet_inert [simp]: "inert (quiet n) data"
  by (simp add: inert_def quiet_def)



section \<open>The registry\<close>


lemma lookup_put_entry [simp]: "lookup (put_entry s arr subs) s = Array arr"
  by (simp add: lookup_def map_of_put_entry)















section \<open>Records and their keys\<close>

lemma map_of_put_record: "map_of (put_record k v rs) = (map_of rs)(k \<mapsto> v)"
  by (induction rs) (auto simp: fun_eq_iff)

lemma put_entry_fixed: "put_entry k x ps = ps \<Longrightarrow> map_of ps k = Some x"
  by (induction ps) (auto split: if_splits)

lemma store_record_stored:
  assumes "store_record ov v st = Inr (k, st')"
  shows "map_of (os_records st') k = Some (stored_as st k v)"
    and "os_keyPath st' = os_keyPath st"
    and "\<And>k'. extract_key (os_keyPath st) v = KKey k' \<Longrightarrow> k' = k"
  using assms
  by (auto simp: store_record_def stored_as_def map_of_put_record bump_generator_def Let_def
      split: extraction.splits if_splits idb_key.splits)



lemma stored_as_fixed:
  assumes "validate_write st v = None"
  shows "stored_as st k v = v \<longleftrightarrow> (\<exists>k'. extract_key (os_keyPath st) v = KKey k')"
proof (cases "extract_key (os_keyPath st) v")
  case KFailure
  with assms obtain ps where v: "v = VObj ps"
    by (cases v) (auto simp: validate_write_def split: if_splits)
  have "put_entry (os_keyPath st) (key_value k) ps \<noteq> ps"
  proof
    assume "put_entry (os_keyPath st) (key_value k) ps = ps"
    then have "map_of ps (os_keyPath st) = Some (key_value k)"
      by (rule put_entry_fixed)
    with KFailure v show False
      by (cases k) auto
  qed
  with KFailure v show ?thesis
    by (simp add: stored_as_def)
next
  case KInvalid
  with assms show ?thesis
    by (simp add: validate_write_def)
next
  case (KKey k')
  then show ?thesis
    by (simp add: stored_as_def)
qed

lemma add_resolved:
  assumes tx: "transaction ix s ReadWrite w = Resolved (dbn, st)"
    and ad: "add ix s v w = (Resolved k, ix', w')"
  obtains st' w1 where "validate_write st v = None" "issue (AddRequest s v) w = (None, w1)"
    "store_record True v st = Inr (k, st')" "(ix', w') = notify ix s (set_store dbn s st' w1)"
  using ad
  by (auto simp: add_def tx split: option.splits prod.splits sum.splits)

text \<open>
  Claim C7, as amended. With an engine that reports no fault, when \<open>add\<close> resolves with
  key \<open>k\<close>, a following \<open>get\<close> of \<open>k\<close> resolves with the record the engine stored: the
  added value itself exactly when the value carried \<open>k\<close> at the store's key path, and
  otherwise (the key was generated) the added value with \<open>k\<close> set at the key path, which
  differs from the added value.
\<close>

theorem add_then_get:
  assumes tx: "transaction ix s ReadWrite w = Resolved (dbn, st)"
    and nf: "faults w = []"
    and ad: "add ix s v w = (Resolved k, ix', w')"
  shows "fst (get ix' s k w') = Resolved (Some (stored_as st k v)) \<and>
         fst (get ix s k w') = Resolved (Some (stored_as st k v)) \<and>
         (stored_as st k v = v \<longleftrightarrow> extract_key (os_keyPath st) v = KKey k)"
proof -
  from add_resolved [OF tx ad] obtain st' w1 where
    va: "validate_write st v = None" and i: "issue (AddRequest s v) w = (None, w1)"
    and sr: "store_record True v st = Inr (k, st')"
    and n: "(ix', w') = notify ix s (set_store dbn s st' w1)"
    by blast
  from n have ix': "ix' = fst (notify ix s (set_store dbn s st' w1))"
    and w': "w' = snd (notify ix s (set_store dbn s st' w1))"
    by (metis fst_conv, metis snd_conv)
  from i nf have w1: "w1 = emit (AddRequest s v) w"
    by (simp add: issue_no_fault)
  have "transaction ix s ReadWrite w1 = Resolved (dbn, st)"
    using tx transaction_cong [of w1 w ix s ReadWrite ReadWrite] by (simp add: w1)
  then have tx1: "transaction ix s ReadOnly (set_store dbn s st' w1) = Resolved (dbn, st')"
    by (rule transaction_set_store)
  have tx2: "transaction ix' s ReadOnly w' = Resolved (dbn, st')"
    unfolding ix' w' using tx1 by (simp add: transaction_after_notify [where m' = ReadOnly])
  have "transaction ix s ReadOnly w' = transaction ix s ReadOnly (set_store dbn s st' w1)"
    unfolding w' by (rule transaction_cong) simp_all
  with tx1 have tx3: "transaction ix s ReadOnly w' = Resolved (dbn, st')"
    by simp
  have nf': "faults w' = []"
    unfolding w' by (rule notify_no_faults) (simp add: w1 nf)
  have a: "fst (get ix' s k w') = Resolved (Some (stored_as st k v))"
    by (simp add: get_def tx2 issue_no_fault [OF nf'] store_record_stored(1) [OF sr])
  have b: "fst (get ix s k w') = Resolved (Some (stored_as st k v))"
    by (simp add: get_def tx3 issue_no_fault [OF nf'] store_record_stored(1) [OF sr])
  have c: "stored_as st k v = v \<longleftrightarrow> extract_key (os_keyPath st) v = KKey k"
    using stored_as_fixed [OF va, of k] store_record_stored(3) [OF sr] by blast
  from a b c show ?thesis
    by simp
qed

lemma add_duplicate:
  "add fresh ''users'' duplicate fresh_world =
     (Resolved (KNum 1), fresh,
      users_world 2 [(KNum 1, duplicate)]
        [OpenRequest ''LocalDB'' 1, AddRequest ''users'' duplicate, GetAllRequest ''users''])"
  by (simp add: fresh_eq fresh_world_eq eval_defs)

theorem add_then_get_witness:
  "add fresh ''users'' duplicate fresh_world =
     (Resolved (KNum 1), fresh,
      users_world 2 [(KNum 1, duplicate)]
        [OpenRequest ''LocalDB'' 1, AddRequest ''users'' duplicate, GetAllRequest ''users'']) \<and>
   fst (get fresh ''users'' (KNum 1)
          (users_world 2 [(KNum 1, duplicate)]
             [OpenRequest ''LocalDB'' 1, AddRequest ''users'' duplicate, GetAllRequest ''users''])) =
     Resolved (Some duplicate)"
proof -
  have tx: "transaction fresh ''users'' ReadWrite fresh_world =
              Resolved (''LocalDB'', users_store 1 [])"
    by (simp add: fresh_world_eq fresh_transaction)
  have nf: "faults fresh_world = []"
    by (simp add: fresh_world_eq)
  have s: "stored_as (users_store 1 []) (KNum 1) duplicate = duplicate"
    by (simp add: stored_as_def users_store_def duplicate_def)
  from add_then_get [OF tx nf add_duplicate] s add_duplicate show ?thesis
    by simp
qed

text \<open>
  Claim C7 as stated fails: a value without a key, added to a store with a key
  generator, comes back with the generated key in it.
\<close>

theorem add_then_get_counterexample:
  "fst (add fresh ''users'' alice fresh_world) = Resolved (KNum 1) \<and>
   fst (get fresh ''users'' (KNum 1) (snd (snd (add fresh ''users'' alice fresh_world)))) =
     Resolved (Some (VObj [(''name'', VStr ''Alice''), (''id'', VNum 1)])) \<and>
   fst (get fresh ''users'' (KNum 1) (snd (snd (add fresh ''users'' alice fresh_world))))
     \<noteq> Resolved (Some alice)"
  by (simp add: add_alice) (simp add: fresh_eq alice_def eval_defs)

section \<open>Bulk additions\<close>









section \<open>The order of the records\<close>

lemma keys_put_record: "(a, b) \<in> set (put_record k v rs) \<Longrightarrow> a = k \<or> a \<in> fst ` set rs"
  by (induction rs) (force split: if_splits)+

lemma sorted_put_record:
  "sorted_wrt (<) (map fst rs) \<Longrightarrow> sorted_wrt (<) (map fst (put_record k v rs))"
proof (induction rs)
  case Nil
  then show ?case by simp
next
  case (Cons r rs)
  obtain k' v' where r: "r = (k', v')"
    by (cases r)
  show ?case
  proof (cases "k < k'")
    case True
    with Cons.prems r show ?thesis
      by (auto simp: less_trans)
  next
    case False
    show ?thesis
    proof (cases "k = k'")
      case True
      with Cons.prems r show ?thesis by simp
    next
      case ne: False
      with False have "k' < k"
        by simp
      moreover have "\<forall>x\<in>set (put_record k v rs). k' < fst x"
        using Cons.prems r \<open>k' < k\<close> keys_put_record [of _ _ k v rs] by fastforce
      ultimately show ?thesis
        using Cons r False ne by simp
    qed
  qed
qed

lemma sorted_delete_record:
  "sorted_wrt (<) (map fst rs) \<Longrightarrow> sorted_wrt (<) (map fst (filter (\<lambda>(k, v). k \<noteq> key) rs))"
  by (induction rs) auto

lemma wf_store_record:
  "store_record ov v st = Inr (k, st') \<Longrightarrow> wf_store st \<Longrightarrow> wf_store st'"
  by (auto simp: store_record_def wf_store_def bump_generator_def Let_def sorted_put_record
      split: extraction.splits if_splits idb_key.splits)

lemma wf_world_cong: "databases w' = databases w \<Longrightarrow> wf_world w' = wf_world w"
  by (simp add: wf_world_def)

lemma wf_world_store:
  assumes "wf_world w" and "find_store dbn s w = Some st"
  shows "wf_store st"
proof -
  from assms(2) obtain d where "map_of (databases w) dbn = Some d" "map_of (db_stores d) s = Some st"
    by (auto simp: find_store_def split: option.splits)
  then have "(dbn, d) \<in> set (databases w)" "(s, st) \<in> set (db_stores d)"
    by (auto dest: map_of_SomeD)
  with assms(1) show ?thesis
    by (auto simp: wf_world_def)
qed

lemma wf_world_set_store:
  assumes "wf_world w" and "wf_store st"
  shows "wf_world (set_store dbn s st w)"
proof (cases "map_of (databases w) dbn")
  case None
  with assms(1) show ?thesis
    by (simp add: set_store_def)
next
  case (Some d)
  then have d: "(dbn, d) \<in> set (databases w)"
    by (rule map_of_SomeD)
  have stores: "wf_store st'" if "(s', st') \<in> set (put_entry s st (db_stores d))" for s' st'
  proof -
    from that set_put_entry [of s st "db_stores d"]
    have "(s', st') = (s, st) \<or> (s', st') \<in> set (db_stores d)"
      by blast
    with assms d show ?thesis
      by (auto simp: wf_world_def)
  qed
  have "\<forall>(s', st')\<in>set (db_stores d'). wf_store st'"
    if "(n, d') \<in> set (put_entry dbn (d\<lparr>db_stores := put_entry s st (db_stores d)\<rparr>) (databases w))"
    for n d'
  proof -
    from that set_put_entry [of dbn "d\<lparr>db_stores := put_entry s st (db_stores d)\<rparr>" "databases w"]
    have "(n, d') = (dbn, d\<lparr>db_stores := put_entry s st (db_stores d)\<rparr>) \<or> (n, d') \<in> set (databases w)"
      by blast
    with assms(1) stores show ?thesis
      by (auto simp: wf_world_def)
  qed
  then have "\<forall>(n, d')\<in>set (put_entry dbn (d\<lparr>db_stores := put_entry s st (db_stores d)\<rparr>) (databases w)).
      \<forall>(s', st')\<in>set (db_stores d'). wf_store st'"
    by blast
  then show ?thesis
    using Some by (simp add: set_store_def wf_world_def)
qed

lemma wf_world_empty: "wf_world empty_world"
  by (simp add: wf_world_def empty_world_def)

lemma wf_onupgradeneeded:
  "\<forall>(s, st)\<in>set oss. wf_store st \<Longrightarrow>
   \<forall>(s, st)\<in>set (onupgradeneeded schema oss). wf_store st"
proof (induction schema arbitrary: oss)
  case Nil
  then show ?case by simp
next
  case (Cons c schema)
  obtain storeName config where c: "c = (storeName, config)"
    by (cases c)
  have "wf_store (createObjectStore config)"
    by (simp add: wf_store_def createObjectStore_def)
  with Cons.prems have "\<forall>(s, st)\<in>set (oss @ [(storeName, createObjectStore config)]). wf_store st"
    by auto
  with Cons.prems show ?case
    unfolding c by (simp del: set_append add: Cons.IH)
qed

lemma wf_world_put_database:
  assumes "wf_world w" and "\<forall>(s, st)\<in>set (db_stores d). wf_store st"
    and "databases w' = put_entry name d (databases w)"
  shows "wf_world w'"
proof -
  have "\<forall>(s, st)\<in>set (db_stores d'). wf_store st"
    if "(n, d') \<in> set (put_entry name d (databases w))" for n d'
  proof -
    from that set_put_entry [of name d "databases w"]
    have "(n, d') = (name, d) \<or> (n, d') \<in> set (databases w)"
      by blast
    with assms(1,2) show ?thesis
      by (auto simp: wf_world_def)
  qed
  then have "\<forall>(n, d')\<in>set (put_entry name d (databases w)).
      \<forall>(s, st)\<in>set (db_stores d'). wf_store st"
    by blast
  then show ?thesis
    by (simp add: wf_world_def assms(3))
qed

lemma debugLog_databases [simp]: "databases (debugLog msg w) = databases w"
  by (simp add: debugLog_def)

lemma wf_world_init:
  assumes "wf_world w"
  shows "wf_world (snd (init name ver schema w))"
proof -
  obtain r w1 where i: "issue (OpenRequest name ver) w = (r, w1)"
    by (cases "issue (OpenRequest name ver) w")
  then have db: "databases w1 = databases w"
    by (rule issue_fields)
  with assms have wf1: "wf_world w1"
    using wf_world_cong [of w1 w] by simp
  define old where "old = (case map_of (databases w1) name of
                           None \<Rightarrow> \<lparr>db_version = 0, db_stores = []\<rparr>
                         | Some d \<Rightarrow> d)"
  have old: "\<forall>(s, st)\<in>set (db_stores old). wf_store st"
  proof (cases "map_of (databases w1) name")
    case None
    then show ?thesis by (simp add: old_def)
  next
    case (Some d)
    then have "(name, d) \<in> set (databases w1)"
      by (rule map_of_SomeD)
    with wf1 Some show ?thesis
      by (auto simp: old_def wf_world_def)
  qed
  define d where "d = (if db_version old < ver
                       then \<lparr>db_version = ver, db_stores = onupgradeneeded schema (db_stores old)\<rparr>
                       else old)"
  have wfd: "\<forall>(s, st)\<in>set (db_stores d). wf_store st"
    using old wf_onupgradeneeded [OF old, of schema] by (simp add: d_def)
  have "wf_world (w1\<lparr>databases := put_entry name d (databases w1),
                       connections := connections w1 @ [(name, True)]\<rparr>)"
    by (rule wf_world_put_database [OF wf1 wfd]) simp
  then have new: "wf_world (debugLog ''IndexedDB initialized:''
                 (w1\<lparr>databases := put_entry name d (databases w1),
                      connections := connections w1 @ [(name, True)]\<rparr>))"
    using wf_world_cong [OF debugLog_databases] by simp
  have err: "wf_world (debugLog ''IndexedDB error:'' w1)"
    using wf1 wf_world_cong [OF debugLog_databases] by simp
  show ?thesis
    using assms wf1 new err
    by (auto simp: init_def i Let_def old_def [symmetric] d_def [symmetric]
        split: option.splits)
qed

lemma wf_run_writes:
  "run_writes ov ev items (st, ab, w) = (rs, st', ab', w') \<Longrightarrow> wf_store st \<Longrightarrow> wf_store st'"
proof (induction items arbitrary: st ab w rs st' ab' w')
  case Nil
  then show ?case by simp
next
  case (Cons item items)
  show ?case
  proof (cases item)
    case (Inl e)
    with Cons show ?thesis
      by (auto split: prod.splits)
  next
    case (Inr v)
    with Cons.prems show ?thesis
      by (auto split: prod.splits if_splits option.splits sum.splits
          dest: Cons.IH wf_store_record)
  qed
qed

lemma reads_keep_databases:
  "databases (snd (get ix s k w)) = databases w"
  "databases (snd (getAll ix s w)) = databases w"
  "databases (snd (getByIndex ix s i q w)) = databases w"
  "databases (snd (count ix s w)) = databases w"
  "databases (snd (exists ix s k w)) = databases w"
  "databases (snd (close ix w)) = databases w"
  by (auto simp: get_def getAll_def getByIndex_def count_def exists_def close_def
      close_connection_def issue_def
      split: outcome.splits prod.splits option.splits list.splits)

lemma cursor_steps_databases:
  "databases (snd (cursor_steps s cb rs w)) = databases w"
  by (induction rs arbitrary: w)
    (auto simp: issue_def split: option.splits prod.splits list.splits)

lemma iterate_databases: "databases (snd (iterate ix s cb w)) = databases w"
  by (auto simp: iterate_def cursor_steps_databases issue_def
      split: outcome.splits prod.splits option.splits list.splits)

lemma wf_world_notify: "wf_world w \<Longrightarrow> wf_world (snd (notify ix s w))"
  using wf_world_cong [of "snd (notify ix s w)" w] by simp

lemma wf_world_issue: "issue ev w = (r, w1) \<Longrightarrow> wf_world w \<Longrightarrow> wf_world w1"
  using wf_world_cong [of w1 w] by (simp add: issue_fields)

lemma wf_world_transaction:
  "transaction ix s m w = Resolved (dbn, st) \<Longrightarrow> wf_world w \<Longrightarrow> wf_store st"
  by (blast intro: wf_world_store transaction_store)

lemma wf_world_writes:
  assumes "wf_world w"
  shows "wf_world (snd (snd (add ix s v w)))" "wf_world (snd (snd (update ix s v w)))"
    "wf_world (snd (snd (delete ix s k w)))" "wf_world (snd (snd (clear ix s w)))"
proof -
  show "wf_world (snd (snd (add ix s v w)))"
    using assms
    by (auto simp: add_def split: outcome.splits prod.splits option.splits sum.splits
        intro!: wf_world_notify wf_world_set_store
        dest: wf_world_issue wf_world_transaction wf_store_record)
  show "wf_world (snd (snd (update ix s v w)))"
    using assms
    by (auto simp: update_def split: outcome.splits prod.splits option.splits sum.splits
        intro!: wf_world_notify wf_world_set_store
        dest: wf_world_issue wf_world_transaction wf_store_record)
  show "wf_world (snd (snd (delete ix s k w)))"
    using assms
    by (auto simp: delete_def wf_store_def sorted_delete_record
        split: outcome.splits prod.splits option.splits
        intro!: wf_world_notify wf_world_set_store
        dest: wf_world_issue wf_world_transaction)
  show "wf_world (snd (snd (clear ix s w)))"
    using assms
    by (auto simp: clear_def wf_store_def
        split: outcome.splits prod.splits option.splits
        intro!: wf_world_notify wf_world_set_store
        dest: wf_world_issue wf_world_transaction)
qed

lemma wf_world_bulk:
  assumes wf: "wf_world w"
  shows "wf_world (snd (snd (bulkAdd ix s vs w)))" "wf_world (snd (snd (bulkUpdate ix s vs w)))"
proof -
  have step: "wf_world (if ab then w1 else set_store dbn s st' w1)"
    if "transaction ix s ReadWrite w = Resolved (dbn, st)"
      and "run_writes ov ev items (st, False, w) = (rs, st', ab, w1)"
    for dbn st ov ev items rs st' ab w1
  proof -
    from that(1) wf have "wf_store st"
      by (rule wf_world_transaction)
    with that(2) have "wf_store st'"
      by (rule wf_run_writes)
    moreover from run_writes_world [OF that(2)] wf have "wf_world w1"
      using wf_world_cong [of w1 w] by simp
    ultimately show ?thesis
      by (simp add: wf_world_set_store)
  qed
  show "wf_world (snd (snd (bulkAdd ix s vs w)))"
    using wf
    by (auto simp: bulkAdd_def Let_def split: outcome.splits prod.splits
        intro!: wf_world_notify dest: step)
  show "wf_world (snd (snd (bulkUpdate ix s vs w)))"
    using wf
    by (auto simp: bulkUpdate_def Let_def split: outcome.splits prod.splits
        intro!: wf_world_notify dest: step)
qed

lemma wf_world_deleteDatabase:
  assumes "wf_world w"
  shows "wf_world (snd (deleteDatabase ix w))"
proof -
  have "set (databases (snd (deleteDatabase ix w))) \<subseteq> set (databases w)"
    by (auto simp: deleteDatabase_def close_def close_connection_def issue_def
        split: outcome.splits prod.splits option.splits list.splits if_splits)
  with assms show ?thesis
    unfolding wf_world_def by blast
qed

lemma wf_world_others:
  assumes "wf_world w"
  shows "wf_world (snd (constructor name ver schema w))"
    "wf_world (snd (get ix s k w))" "wf_world (snd (getAll ix s w))"
    "wf_world (snd (getByIndex ix s i q w))" "wf_world (snd (count ix s w))"
    "wf_world (snd (exists ix s k w))" "wf_world (snd (iterate ix s f w))"
    "wf_world (snd (snd (subscribe ix s cb w)))" "wf_world (snd (close ix w))"
proof -
  show "wf_world (snd (constructor name ver schema w))"
    using wf_world_init [OF assms, of name ver schema]
    by (auto simp: constructor_def split: prod.splits)
  show "wf_world (snd (get ix s k w))" "wf_world (snd (getAll ix s w))"
    "wf_world (snd (getByIndex ix s i q w))" "wf_world (snd (count ix s w))"
    "wf_world (snd (exists ix s k w))" "wf_world (snd (iterate ix s f w))"
    "wf_world (snd (snd (subscribe ix s cb w)))" "wf_world (snd (close ix w))"
    using assms
    by (simp_all add: wf_world_def reads_keep_databases iterate_databases)
qed

section \<open>Iteration\<close>

lemma cursor_steps_resolved:
  "cursor_steps s cb rs w = (Resolved u, w') \<Longrightarrow> trace w' = trace w @ cursor_events s rs"
proof (induction rs arbitrary: w)
  case Nil
  then show ?case by simp
next
  case (Cons r rs)
  obtain k v where r: "r = (k, v)"
    by (cases r)
  from Cons.prems obtain w1 where
    i: "issue (ContinueRequest s) (emit (Visited v k) w) = (None, w1)"
    and c: "cursor_steps s cb rs w1 = (Resolved u, w')"
    unfolding r by (auto split: option.splits prod.splits)
  from issue_trace [OF i] Cons.IH [OF c] show ?case
    by (simp add: r)
qed

lemma iterate_resolved:
  assumes tx: "transaction ix s ReadOnly w = Resolved (dbn, st)"
    and it: "iterate ix s cb w = (Resolved u, w')"
  shows "new_events w w' = OpenCursorRequest s # cursor_events s (os_records st)"
proof -
  from it obtain w1 where i: "issue (OpenCursorRequest s) w = (None, w1)"
    and c: "cursor_steps s cb (os_records st) w1 = (Resolved u, w')"
    by (auto simp: iterate_def tx split: option.splits prod.splits)
  from issue_trace [OF i] cursor_steps_resolved [OF c] show ?thesis
    by (simp add: new_events_def)
qed

lemma iterate_throw:
  assumes tx: "transaction ix s ReadOnly w = Resolved (dbn, st)"
    and n: "n < length (os_records st)" and r: "os_records st ! n = (k, v)"
    and th: "cb v k = Some e" and nf: "no_fault_before (Suc n) w"
    and ok: "\<forall>(k, v)\<in>set (take n (os_records st)). cb v k = None"
  shows "fst (iterate ix s cb w) = Pending"
    and "new_events w (snd (iterate ix s cb w)) =
           OpenCursorRequest s # cursor_events s (take n (os_records st)) @
           [Visited v k, Uncaught e]"
proof -
  from n r have d: "drop n (os_records st) = (k, v) # drop (Suc n) (os_records st)"
    by (simp add: Cons_nth_drop_Suc [symmetric])
  from n have "n \<le> length (os_records st)"
    by simp
  from iterate_prefix [OF tx this nf ok] th
  show "fst (iterate ix s cb w) = Pending"
    and "new_events w (snd (iterate ix s cb w)) =
           OpenCursorRequest s # cursor_events s (take n (os_records st)) @
           [Visited v k, Uncaught e]"
    by (simp_all add: d new_events_def)
qed

lemma cursor_steps_visits:
  "\<exists>m\<le>length rs. \<exists>evs. trace (snd (cursor_steps s cb rs w)) = trace w @ evs \<and>
     filter is_visit evs = map (\<lambda>(k, v). Visited v k) (take m rs)"
proof (induction rs arbitrary: w)
  case Nil
  then show ?case by simp
next
  case (Cons r rs)
  obtain k v where r: "r = (k, v)"
    by (cases r)
  show ?case
  proof (cases "cb v k")
    case (Some e)
    then have "trace (snd (cursor_steps s cb (r # rs) w)) = trace w @ [Visited v k, Uncaught e] \<and>
        filter is_visit [Visited v k, Uncaught e] = map (\<lambda>(k, v). Visited v k) (take (Suc 0) (r # rs))"
      by (simp add: r)
    then show ?thesis
      by (metis Suc_leI length_Cons zero_less_Suc)
  next
    case None
    let ?w1 = "(emit (ContinueRequest s) (emit (Visited v k) w))\<lparr>faults := tl (faults w)\<rparr>"
    show ?thesis
    proof (cases "fault_at 0 w")
      case (Some e)
      with None
      have "trace (snd (cursor_steps s cb (r # rs) w)) = trace w @ [Visited v k, ContinueRequest s] \<and>
        filter is_visit [Visited v k, ContinueRequest s] =
          map (\<lambda>(k, v). Visited v k) (take (Suc 0) (r # rs))"
        by (simp add: r issue_eq)
      then show ?thesis
        by (metis Suc_leI length_Cons zero_less_Suc)
    next
      case nf: None
      from Cons.IH [of ?w1] obtain m evs where m: "m \<le> length rs"
        and tr: "trace (snd (cursor_steps s cb rs ?w1)) = trace ?w1 @ evs"
        and vi: "filter is_visit evs = map (\<lambda>(k, v). Visited v k) (take m rs)"
        by blast
      from None nf tr vi
      have "trace (snd (cursor_steps s cb (r # rs) w)) =
              trace w @ (Visited v k # ContinueRequest s # evs) \<and>
            filter is_visit (Visited v k # ContinueRequest s # evs) =
              map (\<lambda>(k, v). Visited v k) (take (Suc m) (r # rs))"
        by (simp add: r issue_eq)
      moreover from m have "Suc m \<le> length (r # rs)"
        by simp
      ultimately show ?thesis
        by blast
    qed
  qed
qed

lemma iterate_visits:
  assumes tx: "transaction ix s ReadOnly w = Resolved (dbn, st)"
  shows "\<exists>m\<le>length (os_records st).
           filter is_visit (new_events w (snd (iterate ix s cb w))) =
             map (\<lambda>(k, v). Visited v k) (take m (os_records st))"
proof (cases "fault_at 0 w")
  case (Some e)
  then have "filter is_visit (new_events w (snd (iterate ix s cb w))) =
             map (\<lambda>(k, v). Visited v k) (take 0 (os_records st))"
    by (simp add: iterate_def tx issue_eq new_events_def)
  then show ?thesis
    by blast
next
  case None
  let ?w1 = "(emit (OpenCursorRequest s) w)\<lparr>faults := tl (faults w)\<rparr>"
  from cursor_steps_visits [of "os_records st" s cb ?w1] obtain m evs where
    m: "m \<le> length (os_records st)"
    and tr: "trace (snd (cursor_steps s cb (os_records st) ?w1)) = trace ?w1 @ evs"
    and vi: "filter is_visit evs = map (\<lambda>(k, v). Visited v k) (take m (os_records st))"
    by blast
  from None tr vi
  have "filter is_visit (new_events w (snd (iterate ix s cb w))) =
             map (\<lambda>(k, v). Visited v k) (take m (os_records st))"
    by (simp add: iterate_def tx issue_eq new_events_def)
  with m show ?thesis
    by blast
qed

text \<open>
  Claim C6, as amended. In a world whose stores satisfy the engine's invariant, the
  records of the store are in strictly ascending key order. In every run \<open>iterate\<close>
  invokes the callback on an initial stretch of these records, in that order, once each.
  It goes through all of them and resolves, after the advance past the last record, when
  the engine reports no fault and the callback returns normally on every record; and
  whenever it resolves it has opened one cursor and then, for each record in order,
  invoked the callback once and advanced the cursor once. When the engine fails the cursor
  request, at the opening or at an advance, \<open>iterate\<close> rejects with the engine's error,
  having visited the records before that advance. When the callback throws on a record,
  the iteration ends there: the later records are not visited, the exception is left
  uncaught in the handler, and the promise never settles.
\<close>

theorem iterate_visits_in_key_order:
  assumes wf: "wf_world w" and tx: "transaction ix s ReadOnly w = Resolved (dbn, st)"
  shows "sorted_wrt (<) (map fst (os_records st)) \<and>
         (\<exists>m\<le>length (os_records st).
            filter is_visit (new_events w (snd (iterate ix s cb w))) =
              map (\<lambda>(k, v). Visited v k) (take m (os_records st))) \<and>
         (\<forall>w'. iterate ix s cb w = (Resolved (), w') \<longrightarrow>
            new_events w w' = OpenCursorRequest s # cursor_events s (os_records st)) \<and>
         (no_fault_before (Suc (length (os_records st))) w \<and>
          (\<forall>(k, v)\<in>set (os_records st). cb v k = None) \<longrightarrow>
            fst (iterate ix s cb w) = Resolved () \<and>
            new_events w (snd (iterate ix s cb w)) =
              OpenCursorRequest s # cursor_events s (os_records st)) \<and>
         (\<forall>n e. n \<le> length (os_records st) \<and> no_fault_before n w \<and> fault_at n w = Some e \<and>
            (\<forall>(k, v)\<in>set (take n (os_records st)). cb v k = None) \<longrightarrow>
            fst (iterate ix s cb w) = Rejected e \<and>
            new_events w (snd (iterate ix s cb w)) =
              OpenCursorRequest s # cursor_events s (take n (os_records st))) \<and>
         (\<forall>n k v e. n < length (os_records st) \<and> os_records st ! n = (k, v) \<and>
            cb v k = Some e \<and> no_fault_before (Suc n) w \<and>
            (\<forall>(k, v)\<in>set (take n (os_records st)). cb v k = None) \<longrightarrow>
            fst (iterate ix s cb w) = Pending \<and>
            new_events w (snd (iterate ix s cb w)) =
              OpenCursorRequest s # cursor_events s (take n (os_records st)) @
              [Visited v k, Uncaught e])"
proof -
  have a: "sorted_wrt (<) (map fst (os_records st))"
    using wf_world_transaction [OF tx wf] by (simp add: wf_store_def)
  note b = iterate_visits [OF tx, of cb]
  have c: "\<forall>w'. iterate ix s cb w = (Resolved (), w') \<longrightarrow>
            new_events w w' = OpenCursorRequest s # cursor_events s (os_records st)"
    using iterate_resolved [OF tx] by blast
  have d: "no_fault_before (Suc (length (os_records st))) w \<and>
          (\<forall>(k, v)\<in>set (os_records st). cb v k = None) \<longrightarrow>
            fst (iterate ix s cb w) = Resolved () \<and>
            new_events w (snd (iterate ix s cb w)) =
              OpenCursorRequest s # cursor_events s (os_records st)"
    using iterate_ok [OF tx, of cb] by (auto simp: new_events_def)
  have e: "\<forall>n e. n \<le> length (os_records st) \<and> no_fault_before n w \<and> fault_at n w = Some e \<and>
            (\<forall>(k, v)\<in>set (take n (os_records st)). cb v k = None) \<longrightarrow>
            fst (iterate ix s cb w) = Rejected e \<and>
            new_events w (snd (iterate ix s cb w)) =
              OpenCursorRequest s # cursor_events s (take n (os_records st))"
    using iterate_fault [OF tx] by blast
  have f: "\<forall>n k v e. n < length (os_records st) \<and> os_records st ! n = (k, v) \<and>
            cb v k = Some e \<and> no_fault_before (Suc n) w \<and>
            (\<forall>(k, v)\<in>set (take n (os_records st)). cb v k = None) \<longrightarrow>
            fst (iterate ix s cb w) = Pending \<and>
            new_events w (snd (iterate ix s cb w)) =
              OpenCursorRequest s # cursor_events s (take n (os_records st)) @
              [Visited v k, Uncaught e]"
    using iterate_throw [OF tx] by blast
  from a b c d e f show ?thesis
    by - (intro conjI; assumption)
qed

lemma two_users_wf: "wf_world two_users"
  unfolding two_users_def fresh_world_def
  by (intro wf_world_bulk wf_world_others wf_world_empty)

lemma two_users_transaction:
  "transaction fresh ''users'' ReadOnly two_users =
     Resolved (''LocalDB'',
       users_store 3
         [(KNum 1, VObj [(''name'', VStr ''Alice''), (''id'', VNum 1)]),
          (KNum 2, VObj [(''name'', VStr ''Bob''), (''id'', VNum 2)])])"
  by (simp add: two_users_eq fresh_transaction)

theorem iterate_visits_in_key_order_witness:
  "wf_world two_users \<and>
   fst (iterate fresh ''users'' (\<lambda>v k. None) two_users) = Resolved () \<and>
   new_events two_users (snd (iterate fresh ''users'' (\<lambda>v k. None) two_users)) =
     [OpenCursorRequest ''users'',
      Visited (VObj [(''name'', VStr ''Alice''), (''id'', VNum 1)]) (KNum 1),
      ContinueRequest ''users'',
      Visited (VObj [(''name'', VStr ''Bob''), (''id'', VNum 2)]) (KNum 2),
      ContinueRequest ''users'']"
proof -
  let ?st = "users_store 3
       [(KNum 1, VObj [(''name'', VStr ''Alice''), (''id'', VNum 1)]),
        (KNum 2, VObj [(''name'', VStr ''Bob''), (''id'', VNum 2)])]"
  have nf: "no_fault_before (Suc (length (os_records ?st))) two_users"
    by (simp add: two_users_eq)
  note t = iterate_visits_in_key_order [OF two_users_wf two_users_transaction,
      where cb = "\<lambda>v k. None"]
  from t nf
  have "fst (iterate fresh ''users'' (\<lambda>v k. None) two_users) = Resolved () \<and>
        new_events two_users (snd (iterate fresh ''users'' (\<lambda>v k. None) two_users)) =
          OpenCursorRequest ''users'' # cursor_events ''users'' (os_records ?st)"
    by simp
  with two_users_wf show ?thesis
    by (simp add: users_store_def)
qed

text \<open>
  Claim C6 as stated fails: with a callback that throws, \<open>iterate\<close> visits the first
  record only and its promise neither resolves nor rejects.
\<close>

theorem iterate_callback_throws_counterexample:
  "map fst (records_of ''LocalDB'' ''users'' two_users) = [KNum 1, KNum 2] \<and>
   fst (iterate fresh ''users'' (\<lambda>v k. Some (Error ''callback failed'')) two_users) = Pending \<and>
   new_events two_users
     (snd (iterate fresh ''users'' (\<lambda>v k. Some (Error ''callback failed'')) two_users)) =
     [OpenCursorRequest ''users'',
      Visited (VObj [(''name'', VStr ''Alice''), (''id'', VNum 1)]) (KNum 1),
      Uncaught (Error ''callback failed'')] \<and>
   Visited (VObj [(''name'', VStr ''Bob''), (''id'', VNum 2)]) (KNum 2)
     \<notin> set (new_events two_users
               (snd (iterate fresh ''users'' (\<lambda>v k. Some (Error ''callback failed'')) two_users)))"
proof -
  have "iterate fresh ''users'' (\<lambda>v k. Some (Error ''callback failed'')) two_users =
     (Pending,
      users_world 3
       [(KNum 1, VObj [(''name'', VStr ''Alice''), (''id'', VNum 1)]),
        (KNum 2, VObj [(''name'', VStr ''Bob''), (''id'', VNum 2)])]
       [OpenRequest ''LocalDB'' 1, AddRequest ''users'' alice, AddRequest ''users'' bob,
        GetAllRequest ''users'', OpenCursorRequest ''users'',
        Visited (VObj [(''name'', VStr ''Alice''), (''id'', VNum 1)]) (KNum 1),
        Uncaught (Error ''callback failed'')])"
    by (simp add: two_users_eq fresh_eq eval_defs)
  then show ?thesis
    by (simp add: two_users_eq users_world_def users_store_def new_events_def records_of_def
        find_store_def)
qed

end
